theory Spec2Isabelle
  imports Complex_Main "HOL-Library.Word"
begin

section \<open>PDFree: a shallow embedding of \<^verbatim>\<open>src/utils/pdfUtils.ts\<close>\<close>

text \<open>
  The development follows the TypeScript source function by function.  Calls into the
  libraries the source imports (pdf-lib, pdf.js, the canvas encoder, html2canvas) are
  not code of the repository: what they return is either part of the input of a model
  function or a parameter of it, so every theorem holds for all values the library
  may return.  A library call may also throw.  Where the source wraps it in \<open>try\<close>
  the model takes the \<open>catch\<close>; the calls to pdf.js in \<open>extractPDFImages\<close> stand
  outside every \<open>try\<close>, and there the exception ends the function and is its
  result.  JavaScript numbers that the source only uses as integers
  are \<open>int\<close> or \<open>nat\<close>, pixel and stream bytes are \<open>8 word\<close>, the 32-bit hash
  is a \<open>32 word\<close>, and the JPEG quality, a fraction, is a \<open>real\<close>.
\<close>

type_synonym bytes = "8 word list"

subsection \<open>\<^verbatim>\<open>protectPDF\<close>\<close>

text \<open>
  \<^verbatim>\<open>
  export const protectPDF = async (file: File, _pw: string): Promise<Blob> => {
    const buf = await readFileAsArrayBuffer(file);
    const pdf = await PDFDocument.load(buf);
    pdf.setProducer('PDFree - Protected');
    return createPdfBlob(await pdf.save());
  };
  \<close>
  The document object of pdf-lib is a record of the metadata fields the source sets and
  of the rest of the document.  \<open>PDFDocument.load\<close> and \<open>save\<close> are parameters;
  a load that throws is \<open>Inl\<close>, and the exception leaves \<open>protectPDF\<close> as it is.
\<close>

record pdf_document =
  title :: string
  author :: string
  subject :: string
  keywordList :: "string list"
  producer :: string
  creator :: string
  objects :: bytes

datatype load_error = LoadError string

definition setProducer :: "string \<Rightarrow> pdf_document \<Rightarrow> pdf_document" where
  "setProducer s pdf = pdf\<lparr>producer := s\<rparr>"

definition protectPDF ::
  "(bytes \<Rightarrow> load_error + pdf_document) \<Rightarrow> (pdf_document \<Rightarrow> bytes) \<Rightarrow>
   bytes \<Rightarrow> string \<Rightarrow> load_error + bytes" where
  "protectPDF load save buf pw =
     (case load buf of
        Inl e \<Rightarrow> Inl e
      | Inr pdf \<Rightarrow> Inr (save (setProducer ''PDFree - Protected'' pdf)))"

subsection \<open>\<^verbatim>\<open>compressPDF\<close>\<close>

text \<open>
  \<^verbatim>\<open>
  const quality = options.imageQuality / 100;
  const scale = options.dpi / 72;
  for (let i = 1; i <= srcPdf.numPages; i++) {
    const vp = page.getViewport({ scale });
    canvas.width = Math.max(1, Math.round(vp.width));  (height alike)
    ...
    if (options.fullPageMode) {
      const jpgUrl = canvas.toDataURL('image/jpeg', quality);
    } else {
      const adjustedQuality = Math.max(quality, 0.3);
      const jpgUrl = canvas.toDataURL('image/jpeg', adjustedQuality);
    }
    const orig = page.getViewport({ scale: 1 });
    const np = newPdf.addPage([orig.width, orig.height]);
  }
  \<close>
  A source page is the two viewports pdf.js returns for it: the one at the scale the
  source computes, \<open>options.dpi / 72\<close>, and the one at scale 1.  The scale is a
  division of doubles and the viewport a product of doubles inside pdf.js, so the
  viewport is input and the model does not compute it from \<open>dpi\<close>; \<open>Math.round\<close>
  of the double it is given is exact.  An output page records the canvas that was
  rendered, the quality argument that \<open>toDataURL\<close> received for it and the size of
  the page added to the new document.  The quality is a real number here: the division
  by 100 is exact, where the source rounds it to a double; \<open>Math.max\<close> picks one of
  its two arguments in both.
\<close>

record CompressionOptions =
  imageQuality :: real
  dpi :: real
  fullPageMode :: bool

record src_page =
  vpWidth :: real
  vpHeight :: real
  origWidth :: real
  origHeight :: real

record jpeg_page =
  canvasWidth :: int
  canvasHeight :: int
  jpegQuality :: real
  pageWidth :: real
  pageHeight :: real

definition Math_round :: "real \<Rightarrow> int" where
  "Math_round x = \<lfloor>x + 1 / 2\<rfloor>"

definition compress_page :: "CompressionOptions \<Rightarrow> src_page \<Rightarrow> jpeg_page" where
  "compress_page options page =
     (let quality = imageQuality options / 100
      in \<lparr> canvasWidth = max 1 (Math_round (vpWidth page)),
           canvasHeight = max 1 (Math_round (vpHeight page)),
           jpegQuality = (if fullPageMode options then quality else max quality (3 / 10)),
           pageWidth = origWidth page,
           pageHeight = origHeight page \<rparr>)"

record compressed_pdf =
  pages :: "jpeg_page list"
  info :: pdf_document

definition compressPDF :: "CompressionOptions \<Rightarrow> src_page list \<Rightarrow> compressed_pdf" where
  "compressPDF options srcPdf =
     \<lparr> pages = map (compress_page options) srcPdf,
       info = \<lparr> title = '''', author = '''', subject = '''', keywordList = [],
                producer = ''PDFree'', creator = ''PDFree'', objects = [] \<rparr> \<rparr>"

subsection \<open>\<^verbatim>\<open>renderHtmlToPageImages\<close>: the pagination slicer\<close>

text \<open>
  \<^verbatim>\<open>
  const contentHeight = container.scrollHeight;
  const usableHeight = A4_HEIGHT_PX;
  const totalPages = Math.max(1, Math.ceil(contentHeight / usableHeight));
  const fullCanvas = await html2canvas(container, { height: contentHeight, scale: 2, ... });
  for (let page = 0; page < totalPages; page++) {
    pageCanvas.width = A4_WIDTH_PX * 2; pageCanvas.height = A4_HEIGHT_PX * 2;
    ctx.fillStyle = '#ffffff'; ctx.fillRect(0, 0, pageCanvas.width, pageCanvas.height);
    const srcY = page * usableHeight * 2;
    const srcH = Math.min(A4_HEIGHT_PX * 2, fullCanvas.height - srcY);
    if (srcH > 0) ctx.drawImage(fullCanvas, 0, srcY, A4_WIDTH_PX * 2, srcH, 0, 0, A4_WIDTH_PX * 2, srcH);
    pages.push(... pageCanvas.toDataURL('image/jpeg', quality) ...);
  }
  \<close>
  The slicer takes the content height and the height of the capture that html2canvas
  returned.  A slice records the page canvas (its size, the rectangle filled white) and
  the one \<open>drawImage\<close> call, if it was made: the source row and the height drawn.
\<close>

definition A4_WIDTH_PX :: int where "A4_WIDTH_PX = 794"
definition A4_HEIGHT_PX :: int where "A4_HEIGHT_PX = 1123"

record page_slice =
  pageCanvasWidth :: int
  pageCanvasHeight :: int
  fillRect :: "int \<times> int \<times> int \<times> int"
  fillStyle :: string
  drawImage :: "(int \<times> int) option"
  sliceQuality :: real

definition totalPages :: "int \<Rightarrow> int" where
  "totalPages contentHeight =
     max 1 \<lceil>real_of_int contentHeight / real_of_int A4_HEIGHT_PX\<rceil>"

definition slice_page :: "real \<Rightarrow> int \<Rightarrow> int \<Rightarrow> page_slice" where
  "slice_page quality fullCanvasHeight page =
     (let usableHeight = A4_HEIGHT_PX;
          w = A4_WIDTH_PX * 2;
          h = A4_HEIGHT_PX * 2;
          srcY = page * usableHeight * 2;
          srcH = min (A4_HEIGHT_PX * 2) (fullCanvasHeight - srcY)
      in \<lparr> pageCanvasWidth = w, pageCanvasHeight = h,
           fillRect = (0, 0, w, h), fillStyle = ''#ffffff'',
           drawImage = (if srcH > 0 then Some (srcY, srcH) else None),
           sliceQuality = quality \<rparr>)"

definition renderHtmlToPageImages :: "real \<Rightarrow> int \<Rightarrow> int \<Rightarrow> page_slice list" where
  "renderHtmlToPageImages quality contentHeight fullCanvasHeight =
     map (slice_page quality fullCanvasHeight) [0 .. totalPages contentHeight - 1]"

text \<open>The height a slice draws from the capture, 0 when \<open>drawImage\<close> was not called.\<close>

definition drawnHeight :: "page_slice \<Rightarrow> int" where
  "drawnHeight s = (case drawImage s of None \<Rightarrow> 0 | Some (srcY, srcH) \<Rightarrow> srcH)"

subsection \<open>\<^verbatim>\<open>extractPDFImages\<close>: strings and the content hash\<close>

text \<open>
  Template literals print numbers in decimal: \<open>show_nat\<close> and \<open>show_int\<close>.
  \<open>str_includes s pat\<close> is \<^verbatim>\<open>s.includes(pat)\<close>.
\<close>

definition digit_char :: "nat \<Rightarrow> char" where
  "digit_char d = ''0123456789'' ! d"

fun show_nat :: "nat \<Rightarrow> string" where
  "show_nat n = (if n < 10 then [digit_char n] else show_nat (n div 10) @ [digit_char (n mod 10)])"

declare show_nat.simps [simp del]

definition show_int :: "int \<Rightarrow> string" where
  "show_int i = (if i < 0 then CHR ''-'' # show_nat (nat (- i)) else show_nat (nat i))"

fun str_includes :: "string \<Rightarrow> string \<Rightarrow> bool" where
  "str_includes [] pat = (pat = [])"
| "str_includes (c # cs) pat = (take (length pat) (c # cs) = pat \<or> str_includes cs pat)"

text \<open>
  \<^verbatim>\<open>
  let hash = 0;
  const sampleSize = Math.min(100, streamBytes.length);
  for (let i = 0; i < sampleSize; i++) {
    hash = ((hash << 5) - hash + streamBytes[i]) | 0;
  }
  const hashKey = `${w}x${h}_${hash}_${streamBytes.length}`;
  \<close>
  \<open>hash << 5\<close> and \<open>| 0\<close> work on 32-bit integers; the subtraction and the addition
  between them are exact, so each round is the same arithmetic modulo \<open>2 ^ 32\<close>.  The
  template prints the hash as a signed number.
\<close>

definition hash_step :: "32 word \<Rightarrow> 8 word \<Rightarrow> 32 word" where
  "hash_step hash b = push_bit 5 hash - hash + ucast b"

definition sample_hash :: "bytes \<Rightarrow> 32 word" where
  "sample_hash streamBytes =
     (let sampleSize = min 100 (length streamBytes)
      in foldl hash_step 0 (take sampleSize streamBytes))"

definition stream_hashKey :: "int \<Rightarrow> int \<Rightarrow> bytes \<Rightarrow> string" where
  "stream_hashKey w h streamBytes =
     show_int w @ ''x'' @ show_int h @ ''_'' @ show_int (sint (sample_hash streamBytes)) @
     ''_'' @ show_nat (length streamBytes)"

text \<open>The two keys of the second method:
  \<^verbatim>\<open>`pdfjs_${w}x${h}`\<close> and \<^verbatim>\<open>`pdfjs_raw_${w}x${h}_${data.length}`\<close>.\<close>

definition bitmap_hashKey :: "nat \<Rightarrow> nat \<Rightarrow> string" where
  "bitmap_hashKey w h = ''pdfjs_'' @ show_nat w @ ''x'' @ show_nat h"

definition raw_hashKey :: "nat \<Rightarrow> nat \<Rightarrow> nat \<Rightarrow> string" where
  "raw_hashKey w h len = ''pdfjs_raw_'' @ show_nat w @ ''x'' @ show_nat h @ ''_'' @ show_nat len"

subsection \<open>The archive and the state of one extraction\<close>

text \<open>
  \<open>zip.file(name, data)\<close> of JSZip adds an entry, or replaces the data of the entry
  that has the name already.  The state of \<open>extractPDFImages\<close> is its three mutable
  variables, the calls it has made to the rendering engine (pdf.js), in order, and the
  call that was rejected, if one was: from then on the exception is on its way out of
  the function and nothing more is done.
\<close>

type_synonym archive = "(string \<times> bytes) list"

fun zip_file :: "string \<Rightarrow> bytes \<Rightarrow> archive \<Rightarrow> archive" where
  "zip_file name d [] = [(name, d)]"
| "zip_file name d ((n, x) # z) = (if n = name then (name, d) # z else (n, x) # zip_file name d z)"

datatype engine_call = GetDocument | RenderPage nat | Cleanup nat

record extraction =
  imageCount :: nat
  extractedHashes :: "string set"
  zip_entries :: archive
  engine_calls :: "engine_call list"
  rejection :: "engine_call option"

definition initial :: extraction where
  "initial = \<lparr> imageCount = 0, extractedHashes = {}, zip_entries = [], engine_calls = [],
               rejection = None \<rparr>"

text \<open>\<^verbatim>\<open>imageCount++; zip.file(`image_${imageCount}_page${pageNumber}.ext`, data);\<close>\<close>

definition entry_name :: "nat \<Rightarrow> nat \<Rightarrow> string \<Rightarrow> string" where
  "entry_name n pageNumber ext =
     ''image_'' @ show_nat n @ ''_page'' @ show_nat pageNumber @ ''.'' @ ext"

definition emit :: "nat \<Rightarrow> string \<Rightarrow> bytes \<Rightarrow> extraction \<Rightarrow> extraction" where
  "emit pageNumber ext payload st =
     (let n = imageCount st + 1
      in st\<lparr> imageCount := n,
             zip_entries := zip_file (entry_name n pageNumber ext) payload (zip_entries st) \<rparr>)"

subsection \<open>Pixel buffers\<close>

text \<open>
  A canvas is its size and the RGBA bytes put on it.  \<open>canvas.toBlob\<close>, the PNG
  encoder of the browser, is a parameter \<open>toBlob\<close> of the model: it returns the bytes
  of the blob, or \<open>None\<close> for \<open>null\<close>.

  \<^verbatim>\<open>
  const rgba = new Uint8ClampedArray(pixelCount * 4);
  for (let j = 0, k = 0; j < decoded.length && k < rgba.length; j += 3, k += 4) {
    rgba[k] = decoded[j]; rgba[k + 1] = decoded[j + 1]; rgba[k + 2] = decoded[j + 2];
    rgba[k + 3] = 255;
  }
  \<close>
  The second argument of \<open>rgb_to_rgba\<close> counts the pixels of \<open>rgba\<close> not yet written.
  A read past the end of \<open>decoded\<close> is \<open>undefined\<close>, stored as 0; pixels the loop does
  not reach keep the 0 the array was created with.  The grayscale loop steps \<open>j\<close> by 1
  and writes \<open>decoded[j]\<close> three times.
\<close>

record canvas =
  canvas_width :: int
  canvas_height :: int
  canvas_data :: bytes

type_synonym encoder = "canvas \<Rightarrow> bytes option"

definition byte_at :: "bytes \<Rightarrow> nat \<Rightarrow> 8 word" where
  "byte_at xs i = (if i < length xs then xs ! i else 0)"

fun rgb_to_rgba :: "bytes \<Rightarrow> nat \<Rightarrow> bytes" where
  "rgb_to_rgba decoded 0 = []"
| "rgb_to_rgba [] (Suc n) = replicate (4 * Suc n) 0"
| "rgb_to_rgba (r # rest) (Suc n) =
     r # byte_at rest 0 # byte_at rest 1 # 255 # rgb_to_rgba (drop 2 rest) n"

fun gray_to_rgba :: "bytes \<Rightarrow> nat \<Rightarrow> bytes" where
  "gray_to_rgba decoded 0 = []"
| "gray_to_rgba [] (Suc n) = replicate (4 * Suc n) 0"
| "gray_to_rgba (g # rest) (Suc n) = g # g # g # 255 # gray_to_rgba rest n"

subsection \<open>Method 1: the XObject streams of pdf-lib\<close>

text \<open>
  What pdf-lib returns for the file is input.  A stream object (\<open>PDFRawStream\<close>) is
  a record of the dictionary entries the source reads, as the source reads them:
  \<^item> \<open>subtype\<close>, \<open>colorSpace\<close>, \<open>filterName\<close>: the \<open>toString()\<close> of the entry,
    \<open>None\<close> when the dictionary has no such entry;
  \<^item> \<open>width\<close>, \<open>height\<close>: the number
    \<^verbatim>\<open>(width as any).numberValue || parseInt(width.toString())\<close>, an integer, \<open>None\<close>
    when the entry is missing (a \<open>NaN\<close> is 0 here: the source rejects both);
  \<^item> \<open>bitsPerComponent\<close>: the \<open>numberValue\<close> of the entry, \<open>None\<close> when there is none;
  \<^item> \<open>contents\<close>: the stored bytes of the stream;
  \<^item> \<open>decoded\<close>: the result of \<^verbatim>\<open>decodePDFRawStream(xObj).decode()\<close>, \<open>None\<close> when
    it throws.
  An entry of the XObject dictionary resolves to a stream, to something else (no
  object, or not a raw stream), or the lookup throws.  A page has a dictionary of
  XObjects, or none, or reading its resources throws.
\<close>

record raw_stream =
  subtype :: "string option"
  width :: "int option"
  height :: "int option"
  colorSpace :: "string option"
  bitsPerComponent :: "int option"
  filterName :: "string option"
  contents :: bytes
  decoded :: "bytes option"

datatype xobject = NotAStream | LookupThrows | RawStream raw_stream

datatype page_resources =
  ResourcesThrow | NoXObject | XObject "(string \<times> xobject) list"

text \<open>
  \<^verbatim>\<open>
  const colorSpaceStr = colorSpace?.toString() || '';
  const isRGB = colorSpaceStr.includes('RGB');
  const isGray = colorSpaceStr.includes('Gray') || colorSpaceStr.includes('Grey');
  const bpc = (bitsPerComponent as any)?.numberValue || 8;
  if (bpc !== 8) continue;
  const pixelCount = w * h;
  if (decoded.length === pixelCount * 3 || isRGB) { ... RGB loop ... }
  else if (decoded.length === pixelCount || isGray) { ... grayscale loop ... }
  else if (decoded.length === pixelCount * 4) { ... new Uint8ClampedArray(decoded) ... }
  else continue;
  \<close>
\<close>

definition or_empty :: "string option \<Rightarrow> string" where
  "or_empty s = (case s of None \<Rightarrow> [] | Some x \<Rightarrow> x)"

definition bpc_of :: "int option \<Rightarrow> int" where
  "bpc_of b = (case b of None \<Rightarrow> 8 | Some n \<Rightarrow> if n = 0 then 8 else n)"

definition paint :: "int \<Rightarrow> int \<Rightarrow> string \<Rightarrow> bytes \<Rightarrow> canvas option" where
  "paint w h colorSpaceStr dec =
     (let isRGB = str_includes colorSpaceStr ''RGB'';
          isGray = str_includes colorSpaceStr ''Gray'' \<or> str_includes colorSpaceStr ''Grey'';
          pixelCount = w * h
      in if int (length dec) = pixelCount * 3 \<or> isRGB then
           Some \<lparr> canvas_width = w, canvas_height = h,
                  canvas_data = rgb_to_rgba dec (nat pixelCount) \<rparr>
         else if int (length dec) = pixelCount \<or> isGray then
           Some \<lparr> canvas_width = w, canvas_height = h,
                  canvas_data = gray_to_rgba dec (nat pixelCount) \<rparr>
         else if int (length dec) = pixelCount * 4 then
           Some \<lparr> canvas_width = w, canvas_height = h, canvas_data = dec \<rparr>
         else None)"

text \<open>
  \<^verbatim>\<open>
  const filterStr = filter?.toString() || '';
  if (filterStr.includes('DCTDecode') || filterStr.includes('/DCT')) {
    imageCount++; zip.file(`image_${imageCount}_page${pageIdx + 1}.jpg`, streamBytes);
  } else if (filterStr.includes('FlateDecode') || filterStr.includes('/Flat') || filterStr === '') {
    try {
      const decoded = decodePDFRawStream(xObj).decode();
      ... (the block above) ...
      const blob = await new Promise(resolve => canvas.toBlob(b => resolve(b), 'image/png'));
      if (blob) { imageCount++; zip.file(`image_${imageCount}_page${pageIdx + 1}.png`, blob); }
    } catch { }
  } else {
    imageCount++; zip.file(`image_${imageCount}_page${pageIdx + 1}.bin`, streamBytes);
  }
  \<close>
\<close>

definition store_stream ::
  "encoder \<Rightarrow> nat \<Rightarrow> raw_stream \<Rightarrow> int \<Rightarrow> int \<Rightarrow> extraction \<Rightarrow> extraction" where
  "store_stream toBlob pageIdx xObj w h st =
     (let streamBytes = contents xObj;
          filterStr = or_empty (filterName xObj)
      in if str_includes filterStr ''DCTDecode'' \<or> str_includes filterStr ''/DCT'' then
           emit (pageIdx + 1) ''jpg'' streamBytes st
         else if str_includes filterStr ''FlateDecode'' \<or> str_includes filterStr ''/Flat'' \<or>
                 filterStr = [] then
           (case decoded xObj of
              None \<Rightarrow> st
            | Some dec \<Rightarrow>
                if bpc_of (bitsPerComponent xObj) \<noteq> 8 then st
                else
                  (case paint w h (or_empty (colorSpace xObj)) dec of
                     None \<Rightarrow> st
                   | Some cv \<Rightarrow>
                       (case toBlob cv of
                          None \<Rightarrow> st
                        | Some blob \<Rightarrow> emit (pageIdx + 1) ''png'' blob st)))
         else emit (pageIdx + 1) ''bin'' streamBytes st)"

text \<open>
  \<^verbatim>\<open>
  if (!subtype || subtype.toString() !== '/Image') continue;
  if (!width || !height) continue;
  if (!w || !h || w <= 0 || h <= 0) continue;
  ... hash ...
  if (extractedHashes.has(hashKey)) continue;
  extractedHashes.add(hashKey);
  \<close>
\<close>

definition extract_stream ::
  "encoder \<Rightarrow> nat \<Rightarrow> raw_stream \<Rightarrow> extraction \<Rightarrow> extraction" where
  "extract_stream toBlob pageIdx xObj st =
     (if subtype xObj \<noteq> Some ''/Image'' then st
      else
        (case (width xObj, height xObj) of
           (Some w, Some h) \<Rightarrow>
             if w = 0 \<or> h = 0 \<or> w \<le> 0 \<or> h \<le> 0 then st
             else
               (let hashKey = stream_hashKey w h (contents xObj)
                in if hashKey \<in> extractedHashes st then st
                   else store_stream toBlob pageIdx xObj w h
                          (st\<lparr> extractedHashes := insert hashKey (extractedHashes st) \<rparr>))
         | _ \<Rightarrow> st))"

definition extract_xobject ::
  "encoder \<Rightarrow> nat \<Rightarrow> xobject \<Rightarrow> extraction \<Rightarrow> extraction" where
  "extract_xobject toBlob pageIdx xo st =
     (case xo of
        NotAStream \<Rightarrow> st
      | LookupThrows \<Rightarrow> st
      | RawStream xObj \<Rightarrow> extract_stream toBlob pageIdx xObj st)"

text \<open>
  The loop over the keys of one page, and the loop over the pages.  An exception of the
  page's own statements reaches the \<open>catch\<close> around the whole of method 1 and ends
  it; what was emitted before stays.  \<open>PDFDocument.load\<close> throwing (\<open>None\<close>) ends it
  at once.
\<close>

fun walk_xobjects ::
  "encoder \<Rightarrow> nat \<Rightarrow> (string \<times> xobject) list \<Rightarrow> extraction \<Rightarrow> extraction" where
  "walk_xobjects toBlob pageIdx [] st = st"
| "walk_xobjects toBlob pageIdx ((key, xo) # rest) st =
     walk_xobjects toBlob pageIdx rest (extract_xobject toBlob pageIdx xo st)"

fun walk_pages ::
  "encoder \<Rightarrow> nat \<Rightarrow> page_resources list \<Rightarrow> extraction \<Rightarrow> extraction" where
  "walk_pages toBlob pageIdx [] st = st"
| "walk_pages toBlob pageIdx (ResourcesThrow # ps) st = st"
| "walk_pages toBlob pageIdx (NoXObject # ps) st = walk_pages toBlob (pageIdx + 1) ps st"
| "walk_pages toBlob pageIdx (XObject keys # ps) st =
     walk_pages toBlob (pageIdx + 1) ps (walk_xobjects toBlob pageIdx keys st)"

definition method1 ::
  "encoder \<Rightarrow> page_resources list option \<Rightarrow> extraction \<Rightarrow> extraction" where
  "method1 toBlob pdfDoc st =
     (case pdfDoc of None \<Rightarrow> st | Some ps \<Rightarrow> walk_pages toBlob 0 ps st)"

subsection \<open>Method 2: the image objects of pdf.js\<close>

text \<open>
  What pdf.js returns for the file is input as well.  A page is its operator list, each
  operator with its first argument (\<open>ops.argsArray[i]?.[0]\<close>), and the three places an
  image name is looked up in: \<open>page.objs\<close>, \<open>page.commonObjs\<close>, and the callback form
  of \<open>objs.get\<close>, which yields nothing when the two seconds pass.  An image object has
  a bitmap (its size and pixels), or \<open>data\<close>, \<open>width\<close> and \<open>height\<close>, or neither;
  \<open>data\<close> is \<open>None\<close> when it is missing or not a byte array.
  \<^verbatim>\<open>
  if (objs?.has(imgName)) imgData = objs.get(imgName);
  if (!imgData && commonObjs?.has(imgName)) imgData = commonObjs.get(imgName);
  if (!imgData && objs) { try { imgData = await Promise.race([...]) } catch { } }
  if (!imgData) continue;
  \<close>
\<close>

datatype img_data = Bitmap nat nat bytes | RawData "bytes option" nat nat | NoImage

record pdfjs_page =
  ops :: "(nat \<times> string option) list"
  objs :: "string \<Rightarrow> img_data option"
  commonObjs :: "string \<Rightarrow> img_data option"
  pending :: "string \<Rightarrow> img_data option"

definition resolve_image :: "pdfjs_page \<Rightarrow> string \<Rightarrow> img_data option" where
  "resolve_image page imgName =
     (case objs page imgName of
        Some d \<Rightarrow> Some d
      | None \<Rightarrow>
          (case commonObjs page imgName of
             Some d \<Rightarrow> Some d
           | None \<Rightarrow> pending page imgName))"

text \<open>
  \<^verbatim>\<open>
  if (imgData.bitmap instanceof ImageBitmap) {
    if (w > 0 && h > 0) {
      const hashKey = `pdfjs_${w}x${h}`;
      if (!extractedHashes.has(hashKey)) {
        extractedHashes.add(hashKey);
        ... drawImage(imgData.bitmap, 0, 0) ... toBlob ...
        if (blob && blob.size > 100) { imageCount++; zip.file(`image_${imageCount}_page${pageNum}.png`, blob); }
      } } }
  else if (imgData.data && imgData.width && imgData.height) {
    if (!(data instanceof Uint8Array) && !(data instanceof Uint8ClampedArray)) continue;
    const hashKey = `pdfjs_raw_${w}x${h}_${data.length}`;
    if (extractedHashes.has(hashKey)) continue;
    extractedHashes.add(hashKey);
    const pixelCount = w * h;
    if (dataArr.length === pixelCount * 4) ...
    else if (dataArr.length === pixelCount * 3) ... RGB loop ...
    else if (dataArr.length === pixelCount) ... grayscale loop ...
    else continue;
    ... toBlob ...
    if (blob && blob.size > 100) { imageCount++; zip.file(`image_${imageCount}_page${pageNum}.png`, blob); }
  }
  \<close>
\<close>

definition store_blob :: "encoder \<Rightarrow> nat \<Rightarrow> canvas \<Rightarrow> extraction \<Rightarrow> extraction" where
  "store_blob toBlob pageNum cv st =
     (case toBlob cv of
        None \<Rightarrow> st
      | Some blob \<Rightarrow> if length blob > 100 then emit pageNum ''png'' blob st else st)"

definition harvest_image :: "encoder \<Rightarrow> nat \<Rightarrow> img_data \<Rightarrow> extraction \<Rightarrow> extraction" where
  "harvest_image toBlob pageNum imgData st =
     (case imgData of
        Bitmap w h px \<Rightarrow>
          if w > 0 \<and> h > 0 then
            (let hashKey = bitmap_hashKey w h
             in if hashKey \<notin> extractedHashes st then
                  store_blob toBlob pageNum
                    \<lparr> canvas_width = int w, canvas_height = int h, canvas_data = px \<rparr>
                    (st\<lparr> extractedHashes := insert hashKey (extractedHashes st) \<rparr>)
                else st)
          else st
      | RawData d w h \<Rightarrow>
          (case d of
             None \<Rightarrow> st
           | Some dataArr \<Rightarrow>
               if w = 0 \<or> h = 0 then st
               else
                 (let hashKey = raw_hashKey w h (length dataArr)
                  in if hashKey \<in> extractedHashes st then st
                     else
                       (let st' = st\<lparr> extractedHashes := insert hashKey (extractedHashes st) \<rparr>;
                            pixelCount = w * h
                        in if length dataArr = pixelCount * 4 then
                             store_blob toBlob pageNum
                               \<lparr> canvas_width = int w, canvas_height = int h,
                                 canvas_data = dataArr \<rparr> st'
                           else if length dataArr = pixelCount * 3 then
                             store_blob toBlob pageNum
                               \<lparr> canvas_width = int w, canvas_height = int h,
                                 canvas_data = rgb_to_rgba dataArr pixelCount \<rparr> st'
                           else if length dataArr = pixelCount then
                             store_blob toBlob pageNum
                               \<lparr> canvas_width = int w, canvas_height = int h,
                                 canvas_data = gray_to_rgba dataArr pixelCount \<rparr> st'
                           else st')))
      | NoImage \<Rightarrow> st)"

text \<open>
  \<^verbatim>\<open>
  const processedImageNames = new Set<string>();
  for (let i = 0; i < ops.fnArray.length; i++) {
    const fn = ops.fnArray[i];
    if (fn === 85 || fn === 82 || fn === 88) {
      const imgName = ops.argsArray[i]?.[0];
      if (!imgName || processedImageNames.has(imgName)) continue;
      processedImageNames.add(imgName);
      ...
  \<close>
\<close>

fun harvest_ops ::
  "encoder \<Rightarrow> pdfjs_page \<Rightarrow> nat \<Rightarrow> (nat \<times> string option) list \<Rightarrow> string set \<Rightarrow>
   extraction \<Rightarrow> extraction" where
  "harvest_ops toBlob page pageNum [] processedImageNames st = st"
| "harvest_ops toBlob page pageNum ((fn, arg) # rest) processedImageNames st =
     (if fn = 85 \<or> fn = 82 \<or> fn = 88 then
        (case arg of
           None \<Rightarrow> harvest_ops toBlob page pageNum rest processedImageNames st
         | Some imgName \<Rightarrow>
             if imgName = [] \<or> imgName \<in> processedImageNames then
               harvest_ops toBlob page pageNum rest processedImageNames st
             else
               harvest_ops toBlob page pageNum rest (insert imgName processedImageNames)
                 (case resolve_image page imgName of
                    None \<Rightarrow> st
                  | Some imgData \<Rightarrow> harvest_image toBlob pageNum imgData st))
      else harvest_ops toBlob page pageNum rest processedImageNames st)"

text \<open>
  \<^verbatim>\<open>
  const pdf = await pdfjsLib.getDocument({ data: buf }).promise;
  for (let pageNum = 1; pageNum <= pdf.numPages; pageNum++) {
    const page = await pdf.getPage(pageNum);
    ...
    await page.render({ canvasContext: ctx, viewport: vp } as any).promise;
    const ops = await (page as any).getOperatorList();
    ... the loop over ops ...
    (page as any).cleanup?.();
  }
  \<close>
  The loop over the pages, from page 1: \<open>getPage\<close>, \<open>render\<close> and
  \<open>getOperatorList\<close> of a page are one \<open>RenderPage\<close> in the list of engine calls,
  \<open>page.cleanup\<close> is \<open>Cleanup\<close>, and \<open>pdfjsLib.getDocument\<close>, called once before the
  loop, is \<open>GetDocument\<close>.  None of these calls is inside a \<open>try\<close>.  pdf.js
  rejects \<open>getDocument\<close> for a file it cannot open (\<open>None\<close> for the document), and
  it may reject one of the three calls of a page (\<open>PageRejects\<close>); the rejection is
  recorded and the loop is left.
\<close>

datatype engine_page = PageRejects | Rendered pdfjs_page

definition rejected :: "engine_call \<Rightarrow> extraction \<Rightarrow> extraction" where
  "rejected c st = st\<lparr> rejection := Some c \<rparr>"

definition called :: "engine_call \<Rightarrow> extraction \<Rightarrow> extraction" where
  "called c st = st\<lparr> engine_calls := engine_calls st @ [c] \<rparr>"

fun harvest_pages :: "encoder \<Rightarrow> nat \<Rightarrow> engine_page list \<Rightarrow> extraction \<Rightarrow> extraction" where
  "harvest_pages toBlob pageNum [] st = st"
| "harvest_pages toBlob pageNum (PageRejects # ps) st =
     rejected (RenderPage pageNum) (called (RenderPage pageNum) st)"
| "harvest_pages toBlob pageNum (Rendered page # ps) st =
     harvest_pages toBlob (pageNum + 1) ps
       (called (Cleanup pageNum)
          (harvest_ops toBlob page pageNum (ops page) {} (called (RenderPage pageNum) st)))"

definition method2 ::
  "encoder \<Rightarrow> engine_page list option \<Rightarrow> extraction \<Rightarrow> extraction" where
  "method2 toBlob pdf st =
     (case pdf of
        None \<Rightarrow> rejected GetDocument (called GetDocument st)
      | Some ps \<Rightarrow> harvest_pages toBlob 1 ps (called GetDocument st))"

subsection \<open>\<^verbatim>\<open>extractPDFImages\<close>\<close>

text \<open>
  \<^verbatim>\<open>
  try { ... method 1 ... } catch { }
  if (imageCount === 0) { ... method 2 ... }
  if (imageCount === 0) { throw new Error('No extractable embedded images found in this PDF. ...'); }
  return zip.generateAsync({ type: 'blob' });
  \<close>
  A file is what each of the two libraries reads from it: pdf-lib's pages, or \<open>None\<close>
  when \<open>PDFDocument.load\<close> throws, and pdf.js's pages, or \<open>None\<close> when
  \<open>getDocument\<close> is rejected.  \<open>walk\<close> is the state after method 1, \<open>run\<close> the
  state when the last test is made or the rejection leaves the function.  The function
  ends in one of three ways: the rejection of a pdf.js call, the error the source
  throws itself, or the archive.
\<close>

record pdf_file =
  pdflib :: "page_resources list option"
  pdfjs :: "engine_page list option"

datatype extract_error = NoExtractableImages | EngineRejected engine_call

definition walk :: "encoder \<Rightarrow> pdf_file \<Rightarrow> extraction" where
  "walk toBlob file = method1 toBlob (pdflib file) initial"

definition run :: "encoder \<Rightarrow> pdf_file \<Rightarrow> extraction" where
  "run toBlob file =
     (let st = walk toBlob file
      in if imageCount st = 0 then method2 toBlob (pdfjs file) st else st)"

definition extractPDFImages :: "encoder \<Rightarrow> pdf_file \<Rightarrow> extract_error + archive" where
  "extractPDFImages toBlob file =
     (let st = run toBlob file
      in case rejection st of
           Some c \<Rightarrow> Inl (EngineRejected c)
         | None \<Rightarrow>
             if imageCount st = 0 then Inl NoExtractableImages else Inr (zip_entries st))"

subsection \<open>Vocabulary of the properties\<close>

text \<open>
  The names of an archive whose entries are numbered from \<open>k + 1\<close> on, given the page
  number and the extension of each entry in order.
\<close>

fun names_from :: "nat \<Rightarrow> (nat \<times> string) list \<Rightarrow> string list" where
  "names_from k [] = []"
| "names_from k ((p, e) # r) = entry_name (Suc k) p e # names_from (Suc k) r"

text \<open>
  The invariant of the two loops: the archive holds \<open>imageCount\<close> entries, named
  \<open>image_1_\<close>, \<open>image_2_\<close>, ... in this order, their page numbers ascend and none
  is above \<open>P\<close>.
\<close>

definition ordered_upto :: "nat \<Rightarrow> extraction \<Rightarrow> bool" where
  "ordered_upto P st \<longleftrightarrow>
     (\<exists>pes. map fst (zip_entries st) = names_from 0 pes \<and> length pes = imageCount st \<and>
            sorted (map fst pes) \<and> (\<forall>p \<in> set (map fst pes). p \<le> P))"


text \<open>
  The engine calls of method 2 for a list of pages, the first of them page \<open>n\<close>: a
  page is rendered and cleaned up, and the page that rejects is the last one called.
\<close>

fun page_calls :: "nat \<Rightarrow> engine_page list \<Rightarrow> engine_call list" where
  "page_calls n [] = []"
| "page_calls n (PageRejects # ps) = [RenderPage n]"
| "page_calls n (Rendered page # ps) = RenderPage n # Cleanup n # page_calls (Suc n) ps"

definition document_calls :: "engine_page list option \<Rightarrow> engine_call list" where
  "document_calls pdf =
     (case pdf of None \<Rightarrow> [GetDocument] | Some ps \<Rightarrow> GetDocument # page_calls 1 ps)"

text \<open>Every call to pdf.js that method 2 makes for the document returns.\<close>

definition engine_returns :: "engine_page list option \<Rightarrow> bool" where
  "engine_returns pdf = (case pdf of None \<Rightarrow> False | Some ps \<Rightarrow> PageRejects \<notin> set ps)"

subsection \<open>Example inputs\<close>

text \<open>
  Streams, pages and files on which the properties are evaluated, and three stand-ins
  for the encoder: one that never returns a blob, one that returns the bytes of the
  canvas, so that the pixels show in the archive, and one whose blob has 101 bytes.
  \<open>garbage_file\<close> is a file neither library can open; \<open>failing_second_page\<close> is a
  document whose first page paints a bitmap and whose second page pdf.js rejects.
\<close>

definition jpeg_stream :: raw_stream where
  "jpeg_stream = \<lparr> subtype = Some ''/Image'', width = Some 2, height = Some 1,
     colorSpace = Some ''/DeviceRGB'', bitsPerComponent = Some 8,
     filterName = Some ''/DCTDecode'', contents = [255, 216, 255], decoded = None \<rparr>"

definition ccitt_stream :: raw_stream where
  "ccitt_stream = \<lparr> subtype = Some ''/Image'', width = Some 3, height = Some 1,
     colorSpace = Some ''/DeviceGray'', bitsPerComponent = Some 1,
     filterName = Some ''/CCITTFaxDecode'', contents = [1, 2], decoded = None \<rparr>"

definition three_pages :: pdf_file where
  "three_pages = \<lparr> pdflib = Some [XObject [(''Im0'', RawStream jpeg_stream)], NoXObject,
                                 XObject [(''Im1'', RawStream ccitt_stream)]],
                   pdfjs = Some [] \<rparr>"

definition blank_page :: pdfjs_page where
  "blank_page = \<lparr> ops = [], objs = (\<lambda>n. None), commonObjs = (\<lambda>n. None),
                  pending = (\<lambda>n. None) \<rparr>"

definition no_images :: pdf_file where
  "no_images = \<lparr> pdflib = None, pdfjs = Some [Rendered blank_page] \<rparr>"

definition no_blob :: encoder where
  "no_blob cv = None"

definition raw_png :: encoder where
  "raw_png cv = Some (canvas_data cv)"

definition big_png :: encoder where
  "big_png cv = Some (replicate 101 0)"

definition indexed_stream :: raw_stream where
  "indexed_stream = \<lparr> subtype = Some ''/Image'', width = Some 1, height = Some 1,
     colorSpace = Some ''[ /Indexed /DeviceRGB 255 7 0 R ]'', bitsPerComponent = Some 8,
     filterName = Some ''/FlateDecode'', contents = [120, 156, 99, 7, 0, 0, 8, 0, 8],
     decoded = Some [7] \<rparr>"

definition zero_depth_stream :: raw_stream where
  "zero_depth_stream = \<lparr> subtype = Some ''/Image'', width = Some 1, height = Some 1,
     colorSpace = Some ''/DeviceGray'', bitsPerComponent = Some 0,
     filterName = Some ''/FlateDecode'', contents = [120, 156, 99, 7, 0, 0, 8, 0, 8],
     decoded = Some [7] \<rparr>"

definition deep_stream :: raw_stream where
  "deep_stream = \<lparr> subtype = Some ''/Image'', width = Some 1, height = Some 1,
     colorSpace = Some ''/DeviceGray'', bitsPerComponent = Some 16,
     filterName = Some ''/FlateDecode'', contents = [0], decoded = Some [0, 0] \<rparr>"

definition unfiltered_stream :: raw_stream where
  "unfiltered_stream = \<lparr> subtype = Some ''/Image'', width = Some 1, height = Some 1,
     colorSpace = Some ''/DeviceGray'', bitsPerComponent = Some 8,
     filterName = None, contents = [7], decoded = Some [7] \<rparr>"



definition garbage_file :: pdf_file where
  "garbage_file = \<lparr> pdflib = None, pdfjs = None \<rparr>"

definition bitmap_page :: pdfjs_page where
  "bitmap_page = \<lparr> ops = [(85, Some ''img_p0_1'')],
     objs = (\<lambda>n. if n = ''img_p0_1'' then Some (Bitmap 4 4 (replicate 64 0)) else None),
     commonObjs = (\<lambda>n. None), pending = (\<lambda>n. None) \<rparr>"

definition failing_second_page :: pdf_file where
  "failing_second_page = \<lparr> pdflib = None, pdfjs = Some [Rendered bitmap_page, PageRejects] \<rparr>"

section \<open>Properties\<close>

subsection \<open>Decimal strings and entry names\<close>

lemma digit_cases: "d < 10 \<Longrightarrow> d = 0 \<or> d = 1 \<or> d = 2 \<or> d = 3 \<or> d = 4 \<or> d = 5 \<or> d = 6 \<or> d = 7 \<or> d = 8 \<or> d = (9::nat)"
  by arith

lemma digit_char_not_underscore: "d < 10 \<Longrightarrow> digit_char d \<noteq> CHR ''_''"
  using digit_cases [of d] by (auto simp: digit_char_def)

lemma digit_char_inj: "d < 10 \<Longrightarrow> e < 10 \<Longrightarrow> digit_char d = digit_char e \<Longrightarrow> d = e"
  using digit_cases [of d] digit_cases [of e] by (auto simp: digit_char_def)

lemma show_nat_not_empty: "show_nat n \<noteq> []"
  by (subst show_nat.simps) simp

lemma show_nat_no_underscore: "CHR ''_'' \<notin> set (show_nat n)"
proof (induction n rule: show_nat.induct)
  case (1 n)
  show ?case
  proof (cases "n < 10")
    case True
    then show ?thesis
      using digit_char_not_underscore [of n] by (subst show_nat.simps) auto
  next
    case False
    have "n mod 10 < 10" by simp
    then have "digit_char (n mod 10) \<noteq> CHR ''_''" by (rule digit_char_not_underscore)
    with False 1 show ?thesis by (subst show_nat.simps) auto
  qed
qed

lemma show_nat_inj: "show_nat n = show_nat m \<Longrightarrow> n = m"
proof (induction n arbitrary: m rule: show_nat.induct)
  case (1 n)
  show ?case
  proof (cases "n < 10")
    case True
    then have n: "show_nat n = [digit_char n]" by (subst show_nat.simps) simp
    show ?thesis
    proof (cases "m < 10")
      case m: True
      then have "show_nat m = [digit_char m]" by (subst show_nat.simps) simp
      with n "1.prems" have "digit_char n = digit_char m" by simp
      with True m show ?thesis by (rule digit_char_inj)
    next
      case False
      then have "show_nat m = show_nat (m div 10) @ [digit_char (m mod 10)]"
        by (subst show_nat.simps) simp
      with n "1.prems" show_nat_not_empty [of "m div 10"] show ?thesis by simp
    qed
  next
    case False
    then have n: "show_nat n = show_nat (n div 10) @ [digit_char (n mod 10)]"
      by (subst show_nat.simps) simp
    show ?thesis
    proof (cases "m < 10")
      case True
      then have "show_nat m = [digit_char m]" by (subst show_nat.simps) simp
      with n "1.prems" show_nat_not_empty [of "n div 10"] show ?thesis by simp
    next
      case m: False
      then have "show_nat m = show_nat (m div 10) @ [digit_char (m mod 10)]"
        by (subst show_nat.simps) simp
      with n "1.prems" have a: "show_nat (n div 10) = show_nat (m div 10)"
        and b: "digit_char (n mod 10) = digit_char (m mod 10)" by simp_all
      from "1.IH" [OF False a] have q: "n div 10 = m div 10" .
      have "n mod 10 = m mod 10" using b by (intro digit_char_inj) simp_all
      with q show ?thesis by (metis div_mult_mod_eq)
    qed
  qed
qed

lemma split_at_separator:
  "c \<notin> set xs \<Longrightarrow> c \<notin> set ys \<Longrightarrow> xs @ c # r = ys @ c # r' \<Longrightarrow> xs = ys"
proof (induction xs arbitrary: ys)
  case Nil
  then show ?case by (cases ys) auto
next
  case (Cons x xs)
  then show ?case by (cases ys) auto
qed

lemma entry_name_number: "entry_name n p e = entry_name n' p' e' \<Longrightarrow> n = n'"
proof -
  assume "entry_name n p e = entry_name n' p' e'"
  then have "show_nat n @ CHR ''_'' # (''page'' @ show_nat p @ ''.'' @ e) =
             show_nat n' @ CHR ''_'' # (''page'' @ show_nat p' @ ''.'' @ e')"
    by (simp add: entry_name_def)
  then have "show_nat n = show_nat n'"
    by (rule split_at_separator [OF show_nat_no_underscore show_nat_no_underscore])
  then show ?thesis by (rule show_nat_inj)
qed

lemma zip_file_new: "name \<notin> fst ` set z \<Longrightarrow> zip_file name d z = z @ [(name, d)]"
  by (induction z) auto


lemma names_from_append:
  "names_from k (xs @ [(p, e)]) = names_from k xs @ [entry_name (Suc (k + length xs)) p e]"
  by (induction xs arbitrary: k) auto

lemma names_from_set:
  "name \<in> set (names_from k pes) \<Longrightarrow>
     \<exists>n p e. name = entry_name n p e \<and> k < n \<and> n \<le> k + length pes"
proof (induction pes arbitrary: k)
  case Nil
  then show ?case by simp
next
  case (Cons a pes)
  obtain p e where a: "a = (p, e)" by (cases a)
  from Cons.prems a consider "name = entry_name (Suc k) p e" | "name \<in> set (names_from (Suc k) pes)"
    by auto
  then show ?case
  proof cases
    case 1
    then show ?thesis by (intro exI [of _ "Suc k"] exI [of _ p] exI [of _ e]) simp
  next
    case 2
    from Cons.IH [OF 2] obtain n p' e' where "name = entry_name n p' e'" "Suc k < n"
      "n \<le> Suc k + length pes" by blast
    then show ?thesis by (intro exI [of _ n] exI [of _ p'] exI [of _ e']) simp
  qed
qed

lemma ordered_initial: "ordered_upto P initial"
  unfolding ordered_upto_def initial_def by (intro exI [of _ "[]"]) simp

lemma ordered_mono: "ordered_upto P st \<Longrightarrow> P \<le> Q \<Longrightarrow> ordered_upto Q st"
  unfolding ordered_upto_def by (elim exE, rule_tac x = pes in exI) auto

lemma ordered_length: "ordered_upto P st \<Longrightarrow> length (zip_entries st) = imageCount st"
proof -
  assume "ordered_upto P st"
  then obtain pes where m: "map fst (zip_entries st) = names_from 0 pes"
    and l: "length pes = imageCount st" unfolding ordered_upto_def by blast
  have "length (names_from k xs) = length xs" for k xs
    by (induction xs arbitrary: k) auto
  with m l show ?thesis by (metis length_map)
qed

lemma emit_fresh:
  assumes "ordered_upto P st"
  shows "entry_name (imageCount st + 1) p ext \<notin> fst ` set (zip_entries st)"
proof
  assume a: "entry_name (imageCount st + 1) p ext \<in> fst ` set (zip_entries st)"
  from assms obtain pes where m: "map fst (zip_entries st) = names_from 0 pes"
    and l: "length pes = imageCount st" unfolding ordered_upto_def by blast
  from a have "entry_name (imageCount st + 1) p ext \<in> set (map fst (zip_entries st))" by simp
  with m have "entry_name (imageCount st + 1) p ext \<in> set (names_from 0 pes)" by simp
  from names_from_set [OF this] obtain n p' e' where
    "entry_name (imageCount st + 1) p ext = entry_name n p' e'" "n \<le> 0 + length pes" by blast
  with l entry_name_number [of "imageCount st + 1" p ext n p' e'] show False by simp
qed

lemma emit_entries:
  assumes "ordered_upto P st"
  shows "zip_entries (emit p ext d st) =
           zip_entries st @ [(entry_name (imageCount st + 1) p ext, d)]"
  using zip_file_new [OF emit_fresh [OF assms]] by (simp add: emit_def Let_def)

lemma emit_count [simp]: "imageCount (emit p ext d st) = imageCount st + 1"
  by (simp add: emit_def Let_def)

lemma emit_hashes [simp]: "extractedHashes (emit p ext d st) = extractedHashes st"
  by (simp add: emit_def Let_def)

lemma emit_calls [simp]: "engine_calls (emit p ext d st) = engine_calls st"
  by (simp add: emit_def Let_def)

lemma emit_ordered:
  assumes "ordered_upto P st" and "P \<le> p"
  shows "ordered_upto p (emit p ext d st)"
proof -
  from assms(1) obtain pes where m: "map fst (zip_entries st) = names_from 0 pes"
    and l: "length pes = imageCount st" and s: "sorted (map fst pes)"
    and b: "\<forall>q \<in> set (map fst pes). q \<le> P" unfolding ordered_upto_def by blast
  let ?pes = "pes @ [(p, ext)]"
  have "map fst (zip_entries (emit p ext d st)) = names_from 0 ?pes"
    using m l by (simp add: emit_entries [OF assms(1)] names_from_append)
  moreover have "length ?pes = imageCount (emit p ext d st)" using l by simp
  moreover have "sorted (map fst ?pes)" using s b assms(2) by (auto simp: sorted_append)
  moreover have "\<forall>q \<in> set (map fst ?pes). q \<le> p" using b assms(2) by auto
  ultimately show ?thesis unfolding ordered_upto_def by blast
qed


lemma ordered_hashes_update [simp]:
  "ordered_upto P (st\<lparr>extractedHashes := H\<rparr>) = ordered_upto P st"
  by (simp add: ordered_upto_def)

lemma ordered_called [simp]: "ordered_upto P (called c st) = ordered_upto P st"
  by (simp add: ordered_upto_def called_def)

lemma ordered_rejected [simp]: "ordered_upto P (rejected c st) = ordered_upto P st"
  by (simp add: ordered_upto_def rejected_def)

lemma store_stream_ordered:
  assumes "ordered_upto P st" and "P \<le> pageIdx + 1"
  shows "ordered_upto (pageIdx + 1) (store_stream toBlob pageIdx xObj w h st)"
proof -
  have e: "ordered_upto (pageIdx + 1) (emit (pageIdx + 1) ext d st)" for ext d
    using assms by (rule emit_ordered)
  have s: "ordered_upto (pageIdx + 1) st" using assms by (rule ordered_mono)
  show ?thesis
    unfolding store_stream_def Let_def using e s by (simp split: option.splits)
qed

lemma extract_stream_ordered:
  assumes "ordered_upto P st" and "P \<le> pageIdx + 1"
  shows "ordered_upto (pageIdx + 1) (extract_stream toBlob pageIdx xObj st)"
proof -
  have e: "ordered_upto (pageIdx + 1) (store_stream toBlob pageIdx xObj w h
      (st\<lparr>extractedHashes := H\<rparr>))" for w h H
    using assms by (intro store_stream_ordered [where P = P]) simp_all
  have s: "ordered_upto (pageIdx + 1) st" using assms by (rule ordered_mono)
  show ?thesis
    unfolding extract_stream_def Let_def using e s by (simp split: option.splits)
qed

lemma extract_xobject_ordered:
  assumes "ordered_upto P st" and "P \<le> pageIdx + 1"
  shows "ordered_upto (pageIdx + 1) (extract_xobject toBlob pageIdx xo st)"
proof -
  have e: "ordered_upto (pageIdx + 1) (extract_stream toBlob pageIdx xObj st)" for xObj
    using assms by (rule extract_stream_ordered)
  have s: "ordered_upto (pageIdx + 1) st" using assms by (rule ordered_mono)
  show ?thesis
    unfolding extract_xobject_def using e s by (simp split: xobject.splits)
qed

lemma walk_xobjects_ordered:
  "ordered_upto P st \<Longrightarrow> P \<le> pageIdx + 1 \<Longrightarrow>
     ordered_upto (pageIdx + 1) (walk_xobjects toBlob pageIdx ks st)"
proof (induction ks arbitrary: P st)
  case Nil
  then show ?case by (simp add: ordered_mono)
next
  case (Cons k ks)
  obtain key xo where k: "k = (key, xo)" by (cases k)
  have "ordered_upto (pageIdx + 1) (extract_xobject toBlob pageIdx xo st)"
    using Cons.prems by (rule extract_xobject_ordered)
  then show ?case using k Cons.IH [of "pageIdx + 1"] by simp
qed

lemma walk_pages_ordered:
  "ordered_upto pageIdx st \<Longrightarrow>
     ordered_upto (pageIdx + length ps) (walk_pages toBlob pageIdx ps st)"
proof (induction ps arbitrary: pageIdx st)
  case Nil
  then show ?case by simp
next
  case (Cons p ps)
  show ?case
  proof (cases p)
    case ResourcesThrow
    with Cons.prems show ?thesis by (simp add: ordered_mono)
  next
    case NoXObject
    have "ordered_upto (pageIdx + 1) st" using Cons.prems by (rule ordered_mono) simp
    from Cons.IH [OF this] NoXObject show ?thesis by simp
  next
    case (XObject ks)
    have "ordered_upto (pageIdx + 1) (walk_xobjects toBlob pageIdx ks st)"
      using Cons.prems by (rule walk_xobjects_ordered) simp
    from Cons.IH [OF this] XObject show ?thesis by simp
  qed
qed

lemma walk_ordered: "\<exists>P. ordered_upto P (walk toBlob file)"
proof (cases "pdflib file")
  case None
  then show ?thesis by (auto simp: walk_def method1_def intro: ordered_initial)
next
  case (Some ps)
  have "ordered_upto (0 + length ps) (walk_pages toBlob 0 ps initial)"
    by (rule walk_pages_ordered) (rule ordered_initial)
  with Some show ?thesis by (auto simp: walk_def method1_def)
qed

lemma store_blob_ordered:
  assumes "ordered_upto P st" and "P \<le> pageNum"
  shows "ordered_upto pageNum (store_blob toBlob pageNum cv st)"
proof -
  have e: "ordered_upto pageNum (emit pageNum ext d st)" for ext d
    using assms by (rule emit_ordered)
  have s: "ordered_upto pageNum st" using assms by (rule ordered_mono)
  show ?thesis
    unfolding store_blob_def using e s by (simp split: option.splits)
qed

lemma harvest_image_ordered:
  assumes "ordered_upto P st" and "P \<le> pageNum"
  shows "ordered_upto pageNum (harvest_image toBlob pageNum imgData st)"
proof -
  have e: "ordered_upto pageNum (store_blob toBlob pageNum cv (st\<lparr>extractedHashes := H\<rparr>))"
    for cv H
    using assms by (intro store_blob_ordered [where P = P]) simp_all
  have s: "ordered_upto pageNum st" using assms by (rule ordered_mono)
  show ?thesis
    unfolding harvest_image_def Let_def using e s
    by (simp split: img_data.splits option.splits)
qed

lemma harvest_ops_ordered:
  "ordered_upto pageNum st \<Longrightarrow>
     ordered_upto pageNum (harvest_ops toBlob page pageNum os seen st)"
proof (induction os arbitrary: seen st)
  case Nil
  then show ?case by simp
next
  case (Cons a os)
  obtain fn arg where a: "a = (fn, arg)" by (cases a)
  have h: "ordered_upto pageNum (harvest_image toBlob pageNum d st)" for d
    using Cons.prems by (rule harvest_image_ordered) simp
  have "ordered_upto pageNum
      (case resolve_image page n of None \<Rightarrow> st | Some d \<Rightarrow> harvest_image toBlob pageNum d st)"
    for n
    using h Cons.prems by (simp split: option.splits)
  then show ?case
    using Cons.prems Cons.IH a by (simp split: option.splits)
qed

lemma harvest_pages_ordered:
  "ordered_upto pageNum st \<Longrightarrow>
     ordered_upto (pageNum + length ps) (harvest_pages toBlob pageNum ps st)"
proof (induction ps arbitrary: pageNum st)
  case Nil
  then show ?case by simp
next
  case (Cons p ps)
  show ?case
  proof (cases p)
    case PageRejects
    with Cons.prems show ?thesis by (simp add: ordered_mono)
  next
    case (Rendered page)
    have "ordered_upto pageNum
        (harvest_ops toBlob page pageNum (ops page) {} (called (RenderPage pageNum) st))"
      using Cons.prems by (intro harvest_ops_ordered) simp
    then have "ordered_upto (pageNum + 1)
        (called (Cleanup pageNum)
           (harvest_ops toBlob page pageNum (ops page) {} (called (RenderPage pageNum) st)))"
      by (simp add: ordered_mono)
    from Cons.IH [OF this] Rendered show ?thesis by simp
  qed
qed

lemma method2_ordered:
  assumes "ordered_upto P st" and "imageCount st = 0"
  shows "\<exists>Q. ordered_upto Q (method2 toBlob pdf st)"
proof -
  have one: "ordered_upto 1 (called GetDocument st)"
    using assms by (auto simp: ordered_upto_def called_def)
  show ?thesis
  proof (cases pdf)
    case None
    with one show ?thesis by (auto simp: method2_def)
  next
    case (Some ps)
    from harvest_pages_ordered [OF one] Some show ?thesis
      by (auto simp: method2_def)
  qed
qed

lemma run_ordered: "\<exists>P. ordered_upto P (run toBlob file)"
proof (cases "imageCount (walk toBlob file) = 0")
  case True
  from walk_ordered obtain P where "ordered_upto P (walk toBlob file)" by blast
  from method2_ordered [OF this True] True show ?thesis
    by (simp add: run_def Let_def)
next
  case False
  with walk_ordered show ?thesis by (simp add: run_def Let_def)
qed


subsection \<open>Calls to the rendering engine\<close>

lemma store_stream_calls [simp]:
  "engine_calls (store_stream toBlob pageIdx xObj w h st) = engine_calls st"
  by (simp add: store_stream_def Let_def split: option.splits)

lemma extract_stream_calls [simp]:
  "engine_calls (extract_stream toBlob pageIdx xObj st) = engine_calls st"
  by (simp add: extract_stream_def Let_def split: option.splits)

lemma extract_xobject_calls [simp]:
  "engine_calls (extract_xobject toBlob pageIdx xo st) = engine_calls st"
  by (simp add: extract_xobject_def split: xobject.splits)

lemma walk_xobjects_calls [simp]:
  "engine_calls (walk_xobjects toBlob pageIdx ks st) = engine_calls st"
  by (induction ks arbitrary: st) auto

lemma walk_pages_calls [simp]:
  "engine_calls (walk_pages toBlob pageIdx ps st) = engine_calls st"
  by (induction toBlob pageIdx ps st rule: walk_pages.induct) auto

lemma walk_calls: "engine_calls (walk toBlob file) = []"
  by (simp add: walk_def method1_def initial_def split: option.splits)

lemma store_blob_calls [simp]:
  "engine_calls (store_blob toBlob pageNum cv st) = engine_calls st"
  by (simp add: store_blob_def split: option.splits)

lemma harvest_image_calls [simp]:
  "engine_calls (harvest_image toBlob pageNum imgData st) = engine_calls st"
  by (simp add: harvest_image_def Let_def split: img_data.splits option.splits)

lemma harvest_ops_calls [simp]:
  "engine_calls (harvest_ops toBlob page pageNum os seen st) = engine_calls st"
proof (induction os arbitrary: seen st)
  case Nil
  then show ?case by simp
next
  case (Cons a os)
  obtain fn arg where a: "a = (fn, arg)" by (cases a)
  show ?case using Cons.IH a by (simp split: option.splits)
qed

lemma harvest_pages_calls:
  "engine_calls (harvest_pages toBlob pageNum ps st) =
     engine_calls st @ page_calls pageNum ps"
proof (induction ps arbitrary: pageNum st)
  case Nil
  show ?case by simp
next
  case (Cons p ps)
  show ?case by (cases p) (simp_all add: Cons.IH called_def rejected_def)
qed

lemma method2_calls:
  "engine_calls (method2 toBlob pdf st) = engine_calls st @ document_calls pdf"
  by (cases pdf)
     (simp_all add: method2_def document_calls_def harvest_pages_calls called_def rejected_def)

lemma walk_count: "(imageCount (walk toBlob file) = 0) = (zip_entries (walk toBlob file) = [])"
  using walk_ordered [of toBlob] ordered_length by (metis length_0_conv)

lemma run_count: "(imageCount (run toBlob file) = 0) = (zip_entries (run toBlob file) = [])"
  using run_ordered [of toBlob] ordered_length by (metis length_0_conv)


subsection \<open>Rejected calls\<close>

lemma emit_rejection [simp]: "rejection (emit p ext d st) = rejection st"
  by (simp add: emit_def Let_def)

lemma store_stream_rejection [simp]:
  "rejection (store_stream toBlob pageIdx xObj w h st) = rejection st"
  by (simp add: store_stream_def Let_def split: option.splits)

lemma extract_stream_rejection [simp]:
  "rejection (extract_stream toBlob pageIdx xObj st) = rejection st"
  by (simp add: extract_stream_def Let_def split: option.splits)

lemma extract_xobject_rejection [simp]:
  "rejection (extract_xobject toBlob pageIdx xo st) = rejection st"
  by (simp add: extract_xobject_def split: xobject.splits)

lemma walk_xobjects_rejection [simp]:
  "rejection (walk_xobjects toBlob pageIdx ks st) = rejection st"
  by (induction ks arbitrary: st) auto

lemma walk_pages_rejection [simp]:
  "rejection (walk_pages toBlob pageIdx ps st) = rejection st"
  by (induction toBlob pageIdx ps st rule: walk_pages.induct) auto

lemma walk_rejection: "rejection (walk toBlob file) = None"
  by (simp add: walk_def method1_def initial_def split: option.splits)

lemma store_blob_rejection [simp]:
  "rejection (store_blob toBlob pageNum cv st) = rejection st"
  by (simp add: store_blob_def split: option.splits)

lemma harvest_image_rejection [simp]:
  "rejection (harvest_image toBlob pageNum imgData st) = rejection st"
  by (simp add: harvest_image_def Let_def split: img_data.splits option.splits)

lemma harvest_ops_rejection [simp]:
  "rejection (harvest_ops toBlob page pageNum os seen st) = rejection st"
proof (induction os arbitrary: seen st)
  case Nil
  then show ?case by simp
next
  case (Cons a os)
  obtain fn arg where a: "a = (fn, arg)" by (cases a)
  show ?case using Cons.IH a by (simp split: option.splits)
qed

lemma harvest_pages_rejection:
  "rejection st = None \<Longrightarrow>
     (rejection (harvest_pages toBlob pageNum ps st) = None) = (PageRejects \<notin> set ps)"
proof (induction ps arbitrary: pageNum st)
  case Nil
  then show ?case by simp
next
  case (Cons p ps)
  show ?case
  proof (cases p)
    case PageRejects
    then show ?thesis by (simp add: rejected_def)
  next
    case (Rendered page)
    have "rejection (called (Cleanup pageNum)
        (harvest_ops toBlob page pageNum (ops page) {} (called (RenderPage pageNum) st))) = None"
      using Cons.prems by (simp add: called_def)
    from Cons.IH [OF this] Rendered show ?thesis by simp
  qed
qed

lemma method2_rejection:
  "rejection st = None \<Longrightarrow>
     (rejection (method2 toBlob pdf st) = None) = engine_returns pdf"
proof (cases pdf)
  case None
  then show ?thesis by (simp add: method2_def engine_returns_def rejected_def)
next
  case (Some ps)
  assume "rejection st = None"
  then have "rejection (called GetDocument st) = None" by (simp add: called_def)
  from harvest_pages_rejection [OF this] Some show ?thesis
    by (simp add: method2_def engine_returns_def)
qed

lemma run_rejection:
  "(rejection (run toBlob file) = None) =
     (zip_entries (walk toBlob file) \<noteq> [] \<or> engine_returns (pdfjs file))"
proof -
  have "rejection (walk toBlob file) = None" by (rule walk_rejection)
  from method2_rejection [OF this]
  have m: "(rejection (method2 toBlob (pdfjs file) (walk toBlob file)) = None) =
      engine_returns (pdfjs file)" .
  show ?thesis
    using walk_count [of toBlob "file"] m by (auto simp: run_def Let_def walk_rejection)
qed

subsection \<open>Compression and pagination\<close>

lemma compress_page_quality:
  "jpegQuality (compress_page options page) =
     (if fullPageMode options then imageQuality options / 100
      else max (imageQuality options / 100) (3 / 10))"
  by (simp add: compress_page_def Let_def)

lemma totalPages_pos: "1 \<le> totalPages H"
  by (simp add: totalPages_def)

lemma length_render:
  "length (renderHtmlToPageImages q H F) = nat (totalPages H)"
  using totalPages_pos [of H] by (simp add: renderHtmlToPageImages_def)

lemma last_render:
  "last (renderHtmlToPageImages q H F) = slice_page q F (totalPages H - 1)"
  using totalPages_pos [of H]
  by (simp add: renderHtmlToPageImages_def last_map upto_rec2)

lemma totalPages_div: "totalPages H = max 1 (- ((- H) div 1123))"
proof -
  have "\<lceil>real_of_int H / real_of_int 1123\<rceil> = - ((- H) div 1123)"
    by (rule ceiling_divide_eq_div)
  then show ?thesis by (simp add: totalPages_def A4_HEIGHT_PX_def)
qed

lemma totalPages_bounds:
  assumes "0 \<le> H"
  shows "1123 * (totalPages H - 1) \<le> H"
    and "0 < H \<Longrightarrow> 1123 * (totalPages H - 1) < H"
    and "H \<le> 1123 * totalPages H"
  using assms unfolding totalPages_div by (auto simp: max_def)

subsection \<open>Fingerprints, channels and entries\<close>

lemma store_stream_hashes [simp]:
  "extractedHashes (store_stream toBlob pageIdx xObj w h st) = extractedHashes st"
  by (simp add: store_stream_def Let_def split: option.splits)








lemma store_blob_hashes [simp]:
  "extractedHashes (store_blob toBlob pageNum cv st) = extractedHashes st"
  by (simp add: store_blob_def split: option.splits)








lemma paint_rgb:
  "int (length dec) = w * h * 3 \<or> str_includes cs ''RGB'' \<Longrightarrow>
     paint w h cs dec =
        Some \<lparr> canvas_width = w, canvas_height = h,
               canvas_data = rgb_to_rgba dec (nat (w * h)) \<rparr>"
  unfolding paint_def Let_def by (simp only: if_True)

lemma paint_gray:
  assumes "int (length dec) \<noteq> w * h * 3" and "\<not> str_includes cs ''RGB''"
    and "int (length dec) = w * h \<or> str_includes cs ''Gray'' \<or> str_includes cs ''Grey''"
  shows "paint w h cs dec =
        Some \<lparr> canvas_width = w, canvas_height = h,
               canvas_data = gray_to_rgba dec (nat (w * h)) \<rparr>"
proof -
  have n: "\<not> (int (length dec) = w * h * 3 \<or> str_includes cs ''RGB'')"
    using assms(1,2) by blast
  show ?thesis
    unfolding paint_def Let_def by (simp only: n assms(3) if_True if_False)
qed

lemma paint_rgba:
  assumes "int (length dec) \<noteq> w * h * 3" and "\<not> str_includes cs ''RGB''"
    and "int (length dec) \<noteq> w * h" and "\<not> str_includes cs ''Gray''"
    and "\<not> str_includes cs ''Grey''"
  shows "paint w h cs dec =
        (if int (length dec) = w * h * 4
         then Some \<lparr> canvas_width = w, canvas_height = h, canvas_data = dec \<rparr> else None)"
proof -
  have n: "\<not> (int (length dec) = w * h * 3 \<or> str_includes cs ''RGB'')"
    using assms(1,2) by blast
  have g: "\<not> (int (length dec) = w * h \<or> str_includes cs ''Gray'' \<or> str_includes cs ''Grey'')"
    using assms(3,4,5) by blast
  show ?thesis
    unfolding paint_def Let_def by (simp only: n g if_False)
qed

lemma store_stream_entries:
  assumes "ordered_upto P s"
  shows "zip_entries (store_stream toBlob pageIdx xObj w h s) = zip_entries s @
     (let filterStr = or_empty (filterName xObj);
          name = entry_name (imageCount s + 1) (pageIdx + 1)
      in if str_includes filterStr ''DCTDecode'' \<or> str_includes filterStr ''/DCT'' then
           [(name ''jpg'', contents xObj)]
         else if str_includes filterStr ''FlateDecode'' \<or> str_includes filterStr ''/Flat'' \<or>
                 filterStr = [] then
           (case decoded xObj of
              None \<Rightarrow> []
            | Some dec \<Rightarrow>
                if bpc_of (bitsPerComponent xObj) \<noteq> 8 then []
                else
                  (case paint w h (or_empty (colorSpace xObj)) dec of
                     None \<Rightarrow> []
                   | Some cv \<Rightarrow>
                       (case toBlob cv of
                          None \<Rightarrow> []
                        | Some blob \<Rightarrow> [(name ''png'', blob)])))
         else [(name ''bin'', contents xObj)])"
proof -
  have e: "zip_entries (emit (Suc pageIdx) ext d s) =
      zip_entries s @ [(entry_name (Suc (imageCount s)) (Suc pageIdx) ext, d)]" for ext d
    using emit_entries [OF assms, of "Suc pageIdx" ext d] by simp
  show ?thesis
    unfolding store_stream_def Let_def by (simp add: e split: option.splits)
qed

lemma rgb_to_rgba_numeral [simp]:
  "rgb_to_rgba [] (numeral k) = replicate (4 * numeral k) 0"
  "rgb_to_rgba (r # rest) (numeral k) =
     r # byte_at rest 0 # byte_at rest 1 # 255 # rgb_to_rgba (drop 2 rest) (pred_numeral k)"
  by (simp_all add: numeral_eq_Suc)

lemma gray_to_rgba_numeral [simp]:
  "gray_to_rgba [] (numeral k) = replicate (4 * numeral k) 0"
  "gray_to_rgba (g # rest) (numeral k) = g # g # g # 255 # gray_to_rgba rest (pred_numeral k)"
  by (simp_all add: numeral_eq_Suc)

subsection \<open>The archive only grows at its end\<close>

lemma extract_stream_extends:
  assumes "ordered_upto P st"
  shows "\<exists>new. zip_entries (extract_stream toBlob pageIdx xObj st) = zip_entries st @ new"
proof (cases "extract_stream toBlob pageIdx xObj st = st")
  case True
  then show ?thesis by simp
next
  case False
  then obtain w h H where
    x: "extract_stream toBlob pageIdx xObj st =
        store_stream toBlob pageIdx xObj w h (st\<lparr>extractedHashes := H\<rparr>)"
    by (auto simp: extract_stream_def Let_def split: option.splits if_splits)
  have "ordered_upto P (st\<lparr>extractedHashes := H\<rparr>)" using assms by simp
  from store_stream_entries [OF this, of toBlob pageIdx xObj w h] show ?thesis
    unfolding x by simp
qed

lemma extract_xobject_extends:
  assumes "ordered_upto P st"
  shows "\<exists>new. zip_entries (extract_xobject toBlob pageIdx xo st) = zip_entries st @ new"
  using extract_stream_extends [OF assms] by (cases xo) (simp_all add: extract_xobject_def)

lemma walk_xobjects_extends:
  assumes "ordered_upto P st" and "P \<le> pageIdx + 1"
  shows "\<exists>new. zip_entries (walk_xobjects toBlob pageIdx ks st) = zip_entries st @ new"
  using assms
proof (induction ks arbitrary: P st)
  case Nil
  show ?case by simp
next
  case (Cons k ks)
  obtain key xo where k: "k = (key, xo)" by (cases k)
  let ?st = "extract_xobject toBlob pageIdx xo st"
  from extract_xobject_extends [OF Cons.prems(1)] obtain n1 where
    1: "zip_entries ?st = zip_entries st @ n1" by blast
  have "ordered_upto (pageIdx + 1) ?st"
    using Cons.prems by (rule extract_xobject_ordered)
  from Cons.IH [OF this] obtain n2 where
    "zip_entries (walk_xobjects toBlob pageIdx ks ?st) = zip_entries ?st @ n2" by auto
  with 1 k show ?case by simp
qed

lemma walk_xobjects_append:
  "walk_xobjects toBlob pageIdx (ks1 @ ks2) st =
     walk_xobjects toBlob pageIdx ks2 (walk_xobjects toBlob pageIdx ks1 st)"
  by (induction ks1 arbitrary: st) auto

lemma walk_pages_extends:
  assumes "ordered_upto pageIdx st"
  shows "\<exists>new. zip_entries (walk_pages toBlob pageIdx ps st) = zip_entries st @ new"
  using assms
proof (induction ps arbitrary: pageIdx st)
  case Nil
  show ?case by simp
next
  case (Cons p ps)
  show ?case
  proof (cases p)
    case ResourcesThrow
    then show ?thesis by simp
  next
    case NoXObject
    have "ordered_upto (pageIdx + 1) st" using Cons.prems by (rule ordered_mono) simp
    from Cons.IH [OF this] NoXObject show ?thesis by simp
  next
    case (XObject ks)
    let ?st = "walk_xobjects toBlob pageIdx ks st"
    from walk_xobjects_extends [OF Cons.prems, of pageIdx] obtain n1 where
      1: "zip_entries ?st = zip_entries st @ n1" by auto
    have "ordered_upto (pageIdx + 1) ?st"
      using Cons.prems by (rule walk_xobjects_ordered) simp
    from Cons.IH [OF this] obtain n2 where
      "zip_entries (walk_pages toBlob (pageIdx + 1) ps ?st) = zip_entries ?st @ n2" by auto
    with 1 XObject show ?thesis by simp
  qed
qed

lemma walk_pages_append:
  "walk_pages toBlob pageIdx (ps1 @ ps2) st =
     (if ResourcesThrow \<in> set ps1 then walk_pages toBlob pageIdx ps1 st
      else walk_pages toBlob (pageIdx + length ps1) ps2 (walk_pages toBlob pageIdx ps1 st))"
proof (induction ps1 arbitrary: pageIdx st)
  case Nil
  show ?case by simp
next
  case (Cons p ps1)
  show ?case by (cases p) (simp_all add: Cons.IH)
qed

lemma walk_in_page_order:
  "\<exists>new. zip_entries (walk_pages toBlob 0 (ps1 @ XObject (ks1 @ ks2) # ps2) initial) =
          zip_entries (walk_pages toBlob 0 (ps1 @ [XObject ks1]) initial) @ new"
proof (cases "ResourcesThrow \<in> set ps1")
  case True
  then show ?thesis by (simp add: walk_pages_append)
next
  case False
  let ?s0 = "walk_pages toBlob 0 ps1 initial"
  let ?s1 = "walk_xobjects toBlob (length ps1) ks1 ?s0"
  have o0: "ordered_upto (0 + length ps1) ?s0"
    by (rule walk_pages_ordered) (rule ordered_initial)
  then have o1: "ordered_upto (length ps1 + 1) ?s1"
    by (intro walk_xobjects_ordered [where P = "length ps1"]) simp_all
  from walk_xobjects_extends [OF o1, of "length ps1" toBlob ks2] obtain n1 where
    1: "zip_entries (walk_xobjects toBlob (length ps1) ks2 ?s1) = zip_entries ?s1 @ n1" by auto
  have "ordered_upto (length ps1 + 1) (walk_xobjects toBlob (length ps1) ks2 ?s1)"
    using o1 by (rule walk_xobjects_ordered) simp
  from walk_pages_extends [OF this, of toBlob ps2] obtain n2 where
    2: "zip_entries (walk_pages toBlob (length ps1 + 1) ps2
          (walk_xobjects toBlob (length ps1) ks2 ?s1)) =
        zip_entries (walk_xobjects toBlob (length ps1) ks2 ?s1) @ n2" by auto
  show ?thesis
    using False 1 2 by (simp add: walk_pages_append walk_xobjects_append)
qed


lemma store_blob_extends:
  assumes "ordered_upto P st"
  shows "\<exists>new. zip_entries (store_blob toBlob pageNum cv st) = zip_entries st @ new"
  using emit_entries [OF assms, of pageNum "''png''"]
  by (simp add: store_blob_def split: option.splits)

lemma harvest_image_extends:
  assumes "ordered_upto P st"
  shows "\<exists>new. zip_entries (harvest_image toBlob pageNum imgData st) = zip_entries st @ new"
proof -
  have "\<exists>new. zip_entries (store_blob toBlob pageNum cv (st\<lparr>extractedHashes := H\<rparr>)) =
      zip_entries st @ new" for cv H
    using store_blob_extends [of P "st\<lparr>extractedHashes := H\<rparr>" toBlob pageNum cv] assms
    by simp
  then show ?thesis
    unfolding harvest_image_def Let_def
    by (simp split: img_data.splits option.splits)
qed

lemma harvest_ops_extends:
  assumes "ordered_upto pageNum st"
  shows "\<exists>new. zip_entries (harvest_ops toBlob page pageNum os seen st) = zip_entries st @ new"
  using assms
proof (induction os arbitrary: seen st)
  case Nil
  show ?case by simp
next
  case (Cons a os)
  obtain fn arg where a: "a = (fn, arg)" by (cases a)
  have step: "\<exists>new. zip_entries (harvest_ops toBlob page pageNum os seen'
        (harvest_image toBlob pageNum d st)) = zip_entries st @ new" for seen' d
  proof -
    from harvest_image_extends [OF Cons.prems] obtain n1 where
      1: "zip_entries (harvest_image toBlob pageNum d st) = zip_entries st @ n1" by blast
    have "ordered_upto pageNum (harvest_image toBlob pageNum d st)"
      using Cons.prems by (rule harvest_image_ordered) simp
    from Cons.IH [OF this] obtain n2 where
      "zip_entries (harvest_ops toBlob page pageNum os seen' (harvest_image toBlob pageNum d st)) =
       zip_entries (harvest_image toBlob pageNum d st) @ n2" by blast
    with 1 show ?thesis by simp
  qed
  show ?case
    using a step Cons.IH [OF Cons.prems] by (simp split: option.splits)
qed

lemma harvest_pages_extends:
  assumes "ordered_upto pageNum st"
  shows "\<exists>new. zip_entries (harvest_pages toBlob pageNum ps st) = zip_entries st @ new"
  using assms
proof (induction ps arbitrary: pageNum st)
  case Nil
  show ?case by simp
next
  case (Cons p ps)
  show ?case
  proof (cases p)
    case PageRejects
    then show ?thesis by (simp add: called_def rejected_def)
  next
    case (Rendered page)
    let ?s1 = "harvest_ops toBlob page pageNum (ops page) {} (called (RenderPage pageNum) st)"
    have o: "ordered_upto pageNum (called (RenderPage pageNum) st)" using Cons.prems by simp
    from harvest_ops_extends [OF o, of toBlob page "ops page" "{}"] obtain n1 where
      "zip_entries ?s1 = zip_entries (called (RenderPage pageNum) st) @ n1" by blast
    then have 1: "zip_entries ?s1 = zip_entries st @ n1" by (simp add: called_def)
    have "ordered_upto pageNum ?s1" using o by (rule harvest_ops_ordered)
    then have "ordered_upto (pageNum + 1) (called (Cleanup pageNum) ?s1)"
      by (simp add: ordered_mono)
    from Cons.IH [OF this] obtain n2 where
      "zip_entries (harvest_pages toBlob (pageNum + 1) ps (called (Cleanup pageNum) ?s1)) =
       zip_entries (called (Cleanup pageNum) ?s1) @ n2" by blast
    then have "zip_entries (harvest_pages toBlob (pageNum + 1) ps (called (Cleanup pageNum) ?s1)) =
       zip_entries ?s1 @ n2" by (simp add: called_def)
    with 1 Rendered show ?thesis by simp
  qed
qed

lemma harvest_pages_append:
  "harvest_pages toBlob pageNum (ps1 @ ps2) st =
     (if PageRejects \<in> set ps1 then harvest_pages toBlob pageNum ps1 st
      else harvest_pages toBlob (pageNum + length ps1) ps2 (harvest_pages toBlob pageNum ps1 st))"
proof (induction ps1 arbitrary: pageNum st)
  case Nil
  show ?case by simp
next
  case (Cons p ps1)
  show ?case by (cases p) (simp_all add: Cons.IH)
qed

lemma harvest_in_page_order:
  assumes "ordered_upto pageNum st"
  shows "\<exists>new. zip_entries (harvest_pages toBlob pageNum (ps1 @ ps2) st) =
          zip_entries (harvest_pages toBlob pageNum ps1 st) @ new"
proof (cases "PageRejects \<in> set ps1")
  case True
  then show ?thesis by (simp add: harvest_pages_append)
next
  case False
  have "ordered_upto (pageNum + length ps1) (harvest_pages toBlob pageNum ps1 st)"
    using assms by (rule harvest_pages_ordered)
  from harvest_pages_extends [OF this] False show ?thesis
    by (simp add: harvest_pages_append)
qed

lemma run_in_page_order:
  "\<exists>new. zip_entries (run toBlob \<lparr>pdflib = L, pdfjs = Some (js1 @ js2)\<rparr>) =
          zip_entries (run toBlob \<lparr>pdflib = L, pdfjs = Some js1\<rparr>) @ new"
proof -
  let ?w = "method1 toBlob L initial"
  show ?thesis
  proof (cases "imageCount ?w = 0")
    case True
    from walk_ordered [of toBlob "\<lparr>pdflib = L, pdfjs = Some js1\<rparr>"] obtain P where
      "ordered_upto P ?w" by (auto simp: walk_def)
    then have "ordered_upto 1 (called GetDocument ?w)"
      using True by (auto simp: ordered_upto_def called_def)
    from harvest_in_page_order [OF this] True show ?thesis
      by (simp add: run_def walk_def method2_def Let_def)
  next
    case False
    then show ?thesis by (simp add: run_def walk_def Let_def)
  qed
qed

subsection \<open>Evaluation\<close>

lemmas eval_defs = run_def walk_def method1_def method2_def called_def Let_def initial_def
  extract_xobject_def extract_stream_def store_stream_def stream_hashKey_def sample_hash_def
  hash_step_def show_int_def show_nat.simps digit_char_def entry_name_def emit_def or_empty_def
  bpc_of_def paint_def harvest_image_def store_blob_def resolve_image_def raw_hashKey_def
  bitmap_hashKey_def byte_at_def rejected_def

subsection \<open>What a key is made of\<close>




















subsection \<open>Depths other than 8\<close>

text \<open>
  A stream on the deflate branch whose declared depth is neither 8 nor 0 changes
  nothing but the set of keys, and the loop over the keys goes on after it.
\<close>

lemma other_depths_skipped:
  assumes "bitsPerComponent xObj = Some n" and "n \<noteq> 8" and "n \<noteq> 0"
    and "\<not> str_includes (or_empty (filterName xObj)) ''DCTDecode''"
    and "\<not> str_includes (or_empty (filterName xObj)) ''/DCT''"
    and "str_includes (or_empty (filterName xObj)) ''FlateDecode'' \<or>
         str_includes (or_empty (filterName xObj)) ''/Flat''"
  shows "\<exists>H. extract_xobject toBlob pageIdx (RawStream xObj) st = st\<lparr>extractedHashes := H\<rparr> \<and>
             walk_xobjects toBlob pageIdx ((key, RawStream xObj) # rest) st =
               walk_xobjects toBlob pageIdx rest (st\<lparr>extractedHashes := H\<rparr>)"
proof -
  let ?r = "extract_stream toBlob pageIdx xObj st"
  have skip: "store_stream toBlob pageIdx xObj w h s = s" for w h s
    using assms by (auto simp: store_stream_def Let_def bpc_of_def split: option.splits)
  have x: "extract_xobject toBlob pageIdx (RawStream xObj) st = ?r"
    by (simp add: extract_xobject_def)
  have r: "?r = st\<lparr>extractedHashes := extractedHashes ?r\<rparr>"
    by (simp add: extract_stream_def Let_def skip split: option.splits)
  have "walk_xobjects toBlob pageIdx ((key, RawStream xObj) # rest) st =
      walk_xobjects toBlob pageIdx rest ?r"
    by (simp add: x)
  then have "walk_xobjects toBlob pageIdx ((key, RawStream xObj) # rest) st =
      walk_xobjects toBlob pageIdx rest (st\<lparr>extractedHashes := extractedHashes ?r\<rparr>)"
    using r by (simp only:)
  with r x show ?thesis by (intro exI [of _ "extractedHashes ?r"]) (simp only:)
qed

section \<open>The claims\<close>

subsection \<open>\<^verbatim>\<open>protectPDF\<close>\<close>

text \<open>
  C10.  The output of \<open>protectPDF\<close> does not depend on the password: for every file
  and any two passwords the results are equal, and the result is the loaded document
  saved again with its producer set to \<open>PDFree - Protected\<close> (or the load error).
  The password reaches neither \<open>load\<close> nor \<open>save\<close>: nothing is encrypted.
\<close>

theorem protectPDF_ignores_password:
  "protectPDF load save buf pw1 = protectPDF load save buf pw2 \<and>
   protectPDF load save buf pw1 =
     map_sum id (\<lambda>pdf. save (pdf\<lparr>producer := ''PDFree - Protected''\<rparr>)) (load buf)"
  by (cases "load buf") (simp_all add: protectPDF_def setProducer_def)

subsection \<open>\<^verbatim>\<open>compressPDF\<close>\<close>

text \<open>
  C5.  For every document and all options, \<open>compressPDF\<close> makes one JPEG per page,
  and the quality each page is encoded at is \<open>imageQuality / 100\<close> when
  \<open>fullPageMode\<close> is set and \<open>max (imageQuality / 100) 0.3\<close> when it is not; in
  that mode the quality is never below 0.3.
\<close>

theorem compressPDF_quality:
  "length (pages (compressPDF options srcPdf)) = length srcPdf \<and>
   (\<forall>p \<in> set (pages (compressPDF options srcPdf)).
      jpegQuality p =
        (if fullPageMode options then imageQuality options / 100
         else max (imageQuality options / 100) (3 / 10)) \<and>
      (\<not> fullPageMode options \<longrightarrow> 3 / 10 \<le> jpegQuality p))"
  by (auto simp: compressPDF_def compress_page_quality)

theorem compressPDF_quality_witness:
  "map jpegQuality (pages (compressPDF \<lparr>imageQuality = 1, dpi = 144, fullPageMode = False\<rparr>
      [\<lparr>vpWidth = 1190, vpHeight = 1684, origWidth = 595, origHeight = 842\<rparr>])) = [3 / 10] \<and>
   map jpegQuality (pages (compressPDF \<lparr>imageQuality = 1, dpi = 144, fullPageMode = True\<rparr>
      [\<lparr>vpWidth = 1190, vpHeight = 1684, origWidth = 595, origHeight = 842\<rparr>])) = [1 / 100]"
  using compressPDF_quality [of "\<lparr>imageQuality = 1, dpi = 144, fullPageMode = False\<rparr>"
      "[\<lparr>vpWidth = 1190, vpHeight = 1684, origWidth = 595, origHeight = 842\<rparr>]"]
    compressPDF_quality [of "\<lparr>imageQuality = 1, dpi = 144, fullPageMode = True\<rparr>"
      "[\<lparr>vpWidth = 1190, vpHeight = 1684, origWidth = 595, origHeight = 842\<rparr>]"]
  by (simp add: compressPDF_def compress_page_def)

subsection \<open>The pagination slicer\<close>

text \<open>
  C6.  For a content height \<open>H \<ge> 0\<close> and the capture html2canvas makes of it at scale
  2 (so of height \<open>2 * H\<close>), the slicer produces \<open>max 1 \<lceil>H / P\<rceil>\<close> slices, where
  \<open>P\<close> is the page height \<open>A4_HEIGHT_PX\<close>; this is the same number as
  \<open>max 1 \<lceil>2 * H / (2 * P)\<rceil>\<close>, counted in the pixels of the capture.  Every slice
  is on a canvas of one page's pixel size, \<open>2 * A4_WIDTH_PX\<close> by \<open>2 * A4_HEIGHT_PX\<close>,
  filled white.  The height drawn on the last slice is the capture height less
  \<open>2 * P\<close> for each page before it, that is \<open>H - P * (pageCount - 1)\<close> at scale 2.
\<close>

theorem slicer_pagination:
  assumes "0 \<le> contentHeight" and "fullCanvasHeight = contentHeight * 2"
  shows "length (renderHtmlToPageImages quality contentHeight fullCanvasHeight) =
           nat (max 1 \<lceil>real_of_int contentHeight / real_of_int A4_HEIGHT_PX\<rceil>) \<and>
         length (renderHtmlToPageImages quality contentHeight fullCanvasHeight) =
           nat (max 1 \<lceil>real_of_int fullCanvasHeight / real_of_int (A4_HEIGHT_PX * 2)\<rceil>) \<and>
         (\<forall>s \<in> set (renderHtmlToPageImages quality contentHeight fullCanvasHeight).
            pageCanvasWidth s = A4_WIDTH_PX * 2 \<and> pageCanvasHeight s = A4_HEIGHT_PX * 2 \<and>
            fillStyle s = ''#ffffff'' \<and>
            fillRect s = (0, 0, A4_WIDTH_PX * 2, A4_HEIGHT_PX * 2)) \<and>
         drawnHeight (last (renderHtmlToPageImages quality contentHeight fullCanvasHeight)) =
           fullCanvasHeight - (A4_HEIGHT_PX * 2) * (totalPages contentHeight - 1) \<and>
         drawnHeight (last (renderHtmlToPageImages quality contentHeight fullCanvasHeight)) =
           2 * (contentHeight - A4_HEIGHT_PX * (totalPages contentHeight - 1))"
proof -
  let ?n = "totalPages contentHeight"
  have len: "length (renderHtmlToPageImages quality contentHeight fullCanvasHeight) = nat ?n"
    by (rule length_render)
  have c1: "nat ?n = nat (max 1 \<lceil>real_of_int contentHeight / real_of_int A4_HEIGHT_PX\<rceil>)"
    by (simp add: totalPages_def)
  have "real_of_int fullCanvasHeight / real_of_int (A4_HEIGHT_PX * 2) =
        real_of_int contentHeight / real_of_int A4_HEIGHT_PX"
    using assms(2) by (simp add: A4_HEIGHT_PX_def)
  then have c2: "nat ?n = nat (max 1 \<lceil>real_of_int fullCanvasHeight / real_of_int (A4_HEIGHT_PX * 2)\<rceil>)"
    by (simp add: totalPages_def)
  have canv: "\<forall>s \<in> set (renderHtmlToPageImages quality contentHeight fullCanvasHeight).
            pageCanvasWidth s = A4_WIDTH_PX * 2 \<and> pageCanvasHeight s = A4_HEIGHT_PX * 2 \<and>
            fillStyle s = ''#ffffff'' \<and>
            fillRect s = (0, 0, A4_WIDTH_PX * 2, A4_HEIGHT_PX * 2)"
    by (auto simp: renderHtmlToPageImages_def slice_page_def Let_def)
  have b1: "1123 * (?n - 1) \<le> contentHeight" and b3: "contentHeight \<le> 1123 * ?n"
    using totalPages_bounds [OF assms(1)] by simp_all
  have b2: "0 < contentHeight \<Longrightarrow> 1123 * (?n - 1) < contentHeight"
    using totalPages_bounds(2) [OF assms(1)] by simp
  have dr: "drawnHeight (slice_page quality fullCanvasHeight (?n - 1)) =
        fullCanvasHeight - (A4_HEIGHT_PX * 2) * (?n - 1)"
    using b1 b2 b3 assms
    by (cases "0 < contentHeight")
       (auto simp: drawnHeight_def slice_page_def Let_def A4_HEIGHT_PX_def min_def)
  show ?thesis
    using len c1 c2 canv dr assms(2)
    by (simp add: last_render A4_HEIGHT_PX_def algebra_simps)
qed

theorem slicer_pagination_witness:
  "(0::int) \<le> 2500 \<and> (5000::int) = 2500 * 2 \<and>
   map drawnHeight (renderHtmlToPageImages (92 / 100) 2500 5000) = [2246, 2246, 508] \<and>
   map pageCanvasHeight (renderHtmlToPageImages (92 / 100) 2500 5000) = [2246, 2246, 2246] \<and>
   totalPages 2500 = 3"
  using slicer_pagination [of 2500 5000 "92 / 100"]
  by (simp add: renderHtmlToPageImages_def totalPages_div upto.simps slice_page_def
      drawnHeight_def A4_HEIGHT_PX_def A4_WIDTH_PX_def Let_def)

subsection \<open>\<^verbatim>\<open>extractPDFImages\<close>: the names of the archive\<close>

text \<open>
  C9.  The names of the archive, in the order of its entries, are
  \<open>image_1_page\<close>\<open>p\<^sub>1\<close>, \<open>image_2_page\<close>\<open>p\<^sub>2\<close>, ...: the number starts at 1 and
  grows by 1 with every entry, there are \<open>imageCount\<close> of them, and the page numbers
  \<open>p\<^sub>1, p\<^sub>2, ...\<close> never decrease.  The entries follow the order in which pages and
  keys are visited: what method 1 has emitted when it has gone through the pages
  \<open>ps1\<close> and the keys \<open>ks1\<close> of the next page is an initial part of what it emits
  for the whole document, and what the run has emitted with the pages \<open>js1\<close> of
  method 2 is an initial part of what it emits with the pages \<open>js1 @ js2\<close>.
\<close>

theorem archive_names_ordered:
  "(\<exists>pes. map fst (zip_entries (run toBlob doc)) = names_from 0 pes \<and>
          length pes = imageCount (run toBlob doc) \<and> sorted (map fst pes)) \<and>
   (\<exists>new. zip_entries (walk toBlob \<lparr>pdflib = Some (ps1 @ XObject (ks1 @ ks2) # ps2), pdfjs = js\<rparr>) =
          zip_entries (walk toBlob \<lparr>pdflib = Some (ps1 @ [XObject ks1]), pdfjs = js\<rparr>) @ new) \<and>
   (\<exists>new. zip_entries (run toBlob \<lparr>pdflib = L, pdfjs = Some (js1 @ js2)\<rparr>) =
          zip_entries (run toBlob \<lparr>pdflib = L, pdfjs = Some js1\<rparr>) @ new)"
proof (intro conjI)
  show "\<exists>pes. map fst (zip_entries (run toBlob doc)) = names_from 0 pes \<and>
          length pes = imageCount (run toBlob doc) \<and> sorted (map fst pes)"
    using run_ordered unfolding ordered_upto_def by blast
next
  show "\<exists>new. zip_entries (walk toBlob \<lparr>pdflib = Some (ps1 @ XObject (ks1 @ ks2) # ps2), pdfjs = js\<rparr>) =
          zip_entries (walk toBlob \<lparr>pdflib = Some (ps1 @ [XObject ks1]), pdfjs = js\<rparr>) @ new"
    using walk_in_page_order [of toBlob ps1 ks1 ks2 ps2] by (simp add: walk_def method1_def)
next
  show "\<exists>new. zip_entries (run toBlob \<lparr>pdflib = L, pdfjs = Some (js1 @ js2)\<rparr>) =
          zip_entries (run toBlob \<lparr>pdflib = L, pdfjs = Some js1\<rparr>) @ new"
    by (rule run_in_page_order)
qed

theorem archive_names_ordered_witness:
  "map fst (zip_entries (run no_blob three_pages)) =
     names_from 0 [(1, ''jpg''), (3, ''bin'')] \<and>
   map fst (zip_entries (run no_blob three_pages)) = [''image_1_page1.jpg'', ''image_2_page3.bin'']"
  using archive_names_ordered [where toBlob = no_blob and doc = three_pages and ?ps1.0 = "[]"
      and ?ks1.0 = "[]" and ?ks2.0 = "[]" and ?ps2.0 = "[]" and js = None and L = None
      and ?js1.0 = "[]" and ?js2.0 = "[]"]
  by (simp add: run_def walk_def method1_def Let_def initial_def extract_xobject_def
      extract_stream_def store_stream_def stream_hashKey_def sample_hash_def hash_step_def
      show_int_def show_nat.simps digit_char_def entry_name_def emit_def or_empty_def
      jpeg_stream_def ccitt_stream_def three_pages_def)

subsection \<open>\<^verbatim>\<open>extractPDFImages\<close>: the two methods and the error\<close>

text \<open>
  C2.  Method 2, the harvest through the rendering engine, runs exactly when method 1
  left the archive empty.  The engine is then called for the document and for each of
  its pages in turn, up to the page that rejects if one does; when method 1 emitted an
  entry the engine is never called and the state after method 1 is the final one.
\<close>

theorem harvest_iff_walk_empty:
  "engine_calls (run toBlob file) =
     (if zip_entries (walk toBlob file) = [] then document_calls (pdfjs file) else []) \<and>
   (GetDocument \<in> set (engine_calls (run toBlob file))) = (zip_entries (walk toBlob file) = []) \<and>
   (zip_entries (walk toBlob file) \<noteq> [] \<longrightarrow> run toBlob file = walk toBlob file)"
proof -
  have "GetDocument \<in> set (document_calls (pdfjs file))"
    by (simp add: document_calls_def split: option.splits)
  then show ?thesis
    using walk_count [of toBlob "file"]
    by (simp add: run_def Let_def method2_calls walk_calls)
qed

theorem harvest_iff_walk_empty_witness:
  "zip_entries (walk no_blob three_pages) \<noteq> [] \<and>
   engine_calls (run no_blob three_pages) = [] \<and>
   zip_entries (walk no_blob no_images) = [] \<and>
   engine_calls (run no_blob no_images) = [GetDocument, RenderPage 1, Cleanup 1] \<and>
   engine_calls (run no_blob garbage_file) = [GetDocument]"
  using harvest_iff_walk_empty [of no_blob three_pages]
    harvest_iff_walk_empty [of no_blob no_images]
    harvest_iff_walk_empty [of no_blob garbage_file]
  by (simp add: walk_def method1_def Let_def initial_def extract_xobject_def
      extract_stream_def store_stream_def stream_hashKey_def sample_hash_def hash_step_def
      show_int_def show_nat.simps digit_char_def entry_name_def emit_def or_empty_def
      jpeg_stream_def ccitt_stream_def three_pages_def no_images_def garbage_file_def
      document_calls_def)

text \<open>
  C1.  \<open>extractPDFImages\<close> raises its own error only when the archive is empty after
  both methods and no call to pdf.js was rejected.  When every call to pdf.js that
  method 2 makes returns, or method 2 is not run because method 1 emitted an entry, it
  raises that error exactly when the archive is empty, that is when method 1 emitted
  nothing and method 2, run after it, emitted nothing either; with an entry in the
  archive the result is then the archive, and no error.  When method 1 emitted an
  entry the result is the archive of method 1.  The counter \<open>imageCount\<close> that the
  source tests is the number of entries of the archive.
\<close>

theorem error_iff_no_entries:
  "(extractPDFImages toBlob file = Inl NoExtractableImages \<longrightarrow>
      zip_entries (run toBlob file) = [] \<and> rejection (run toBlob file) = None) \<and>
   (zip_entries (walk toBlob file) \<noteq> [] \<or> engine_returns (pdfjs file) \<longrightarrow>
      (extractPDFImages toBlob file = Inl NoExtractableImages) =
        (zip_entries (run toBlob file) = []) \<and>
      (zip_entries (run toBlob file) \<noteq> [] \<longrightarrow>
         extractPDFImages toBlob file = Inr (zip_entries (run toBlob file)))) \<and>
   (zip_entries (walk toBlob file) \<noteq> [] \<longrightarrow>
      extractPDFImages toBlob file = Inr (zip_entries (walk toBlob file))) \<and>
   length (zip_entries (run toBlob file)) = imageCount (run toBlob file) \<and>
   (zip_entries (run toBlob file) = []) =
     (zip_entries (walk toBlob file) = [] \<and>
      zip_entries (method2 toBlob (pdfjs file) (walk toBlob file)) = [])"
proof -
  note cnt = run_count [of toBlob "file"]
  note rej = run_rejection [of toBlob "file"]
  have a: "extractPDFImages toBlob file = Inl NoExtractableImages \<longrightarrow>
      zip_entries (run toBlob file) = [] \<and> rejection (run toBlob file) = None"
    using cnt by (simp add: extractPDFImages_def Let_def split: option.splits if_splits)
  have b: "zip_entries (walk toBlob file) \<noteq> [] \<or> engine_returns (pdfjs file) \<longrightarrow>
      (extractPDFImages toBlob file = Inl NoExtractableImages) =
        (zip_entries (run toBlob file) = []) \<and>
      (zip_entries (run toBlob file) \<noteq> [] \<longrightarrow>
         extractPDFImages toBlob file = Inr (zip_entries (run toBlob file)))"
  proof
    assume "zip_entries (walk toBlob file) \<noteq> [] \<or> engine_returns (pdfjs file)"
    with rej have "rejection (run toBlob file) = None" by simp
    then show "(extractPDFImages toBlob file = Inl NoExtractableImages) =
        (zip_entries (run toBlob file) = []) \<and>
      (zip_entries (run toBlob file) \<noteq> [] \<longrightarrow>
         extractPDFImages toBlob file = Inr (zip_entries (run toBlob file)))"
      using cnt by (simp add: extractPDFImages_def Let_def)
  qed
  have c: "zip_entries (walk toBlob file) \<noteq> [] \<longrightarrow>
      extractPDFImages toBlob file = Inr (zip_entries (walk toBlob file))"
  proof
    assume w: "zip_entries (walk toBlob file) \<noteq> []"
    with walk_count [of toBlob "file"] have "run toBlob file = walk toBlob file"
      by (simp add: run_def Let_def)
    with w walk_count [of toBlob "file"] show
      "extractPDFImages toBlob file = Inr (zip_entries (walk toBlob file))"
      by (simp add: extractPDFImages_def Let_def walk_rejection)
  qed
  have d: "length (zip_entries (run toBlob file)) = imageCount (run toBlob file)"
    using run_ordered [of toBlob] ordered_length by blast
  have e: "(zip_entries (run toBlob file) = []) =
     (zip_entries (walk toBlob file) = [] \<and>
      zip_entries (method2 toBlob (pdfjs file) (walk toBlob file)) = [])"
    using walk_count [of toBlob "file"] by (auto simp: run_def Let_def)
  from a b c d e show ?thesis by blast
qed

theorem error_iff_no_entries_witness:
  "engine_returns (pdfjs no_images) \<and>
   extractPDFImages no_blob no_images = Inl NoExtractableImages \<and>
   extractPDFImages no_blob three_pages =
     Inr [(''image_1_page1.jpg'', [255, 216, 255]), (''image_2_page3.bin'', [1, 2])] \<and>
   extractPDFImages big_png \<lparr>pdflib = None, pdfjs = Some [Rendered bitmap_page]\<rparr> =
     Inr [(''image_1_page1.png'', replicate 101 0)]"
  using error_iff_no_entries [of no_blob no_images]
    error_iff_no_entries [of no_blob three_pages]
    error_iff_no_entries [of big_png "\<lparr>pdflib = None, pdfjs = Some [Rendered bitmap_page]\<rparr>"]
  by (simp add: extractPDFImages_def eval_defs engine_returns_def blank_page_def bitmap_page_def
      jpeg_stream_def ccitt_stream_def three_pages_def no_images_def no_blob_def big_png_def)

text \<open>
  The calls to pdf.js stand outside every \<open>try\<close>.  For a file that neither library
  can open no image is recovered, and the function ends with the rejection of
  \<open>getDocument\<close>, not with its own error.  For a document whose first page yields an
  entry and whose second page is rejected, the function ends with that rejection
  although an entry was emitted.
\<close>

theorem rejection_replaces_error:
  "zip_entries (run no_blob garbage_file) = [] \<and>
   extractPDFImages no_blob garbage_file = Inl (EngineRejected GetDocument) \<and>
   zip_entries (run big_png failing_second_page) = [(''image_1_page1.png'', replicate 101 0)] \<and>
   extractPDFImages big_png failing_second_page = Inl (EngineRejected (RenderPage 2))"
  by (simp add: extractPDFImages_def eval_defs bitmap_page_def garbage_file_def
      failing_second_page_def no_blob_def big_png_def)

subsection \<open>\<^verbatim>\<open>extractPDFImages\<close>: the fingerprint\<close>





subsection \<open>\<^verbatim>\<open>extractPDFImages\<close>: the channels of a decoded stream\<close>

text \<open>
  C4.  The decoded bytes of a stream are read as RGB when their number is
  \<open>3 * width * height\<close> or the name of the colour space contains \<open>RGB\<close>; otherwise
  as grayscale when their number is \<open>width * height\<close> or the name contains \<open>Gray\<close>
  or \<open>Grey\<close>; otherwise as RGBA when their number is \<open>4 * width * height\<close>;
  otherwise the stream is skipped.  A three-channel length so wins over a gray name, and
  an \<open>RGB\<close> name wins over a one-channel length.
\<close>

theorem channel_choice:
  "(int (length dec) = w * h * 3 \<or> str_includes cs ''RGB'' \<longrightarrow>
      paint w h cs dec =
        Some \<lparr> canvas_width = w, canvas_height = h,
               canvas_data = rgb_to_rgba dec (nat (w * h)) \<rparr>) \<and>
   (int (length dec) \<noteq> w * h * 3 \<and> \<not> str_includes cs ''RGB'' \<and>
    (int (length dec) = w * h \<or> str_includes cs ''Gray'' \<or> str_includes cs ''Grey'') \<longrightarrow>
      paint w h cs dec =
        Some \<lparr> canvas_width = w, canvas_height = h,
               canvas_data = gray_to_rgba dec (nat (w * h)) \<rparr>) \<and>
   (int (length dec) \<noteq> w * h * 3 \<and> \<not> str_includes cs ''RGB'' \<and>
    int (length dec) \<noteq> w * h \<and> \<not> str_includes cs ''Gray'' \<and> \<not> str_includes cs ''Grey'' \<longrightarrow>
      paint w h cs dec =
        (if int (length dec) = w * h * 4
         then Some \<lparr> canvas_width = w, canvas_height = h, canvas_data = dec \<rparr> else None))"
proof (intro conjI impI)
  assume "int (length dec) = w * h * 3 \<or> str_includes cs ''RGB''"
  then show "paint w h cs dec =
        Some \<lparr> canvas_width = w, canvas_height = h,
               canvas_data = rgb_to_rgba dec (nat (w * h)) \<rparr>"
    by (rule paint_rgb)
next
  assume a: "int (length dec) \<noteq> w * h * 3 \<and> \<not> str_includes cs ''RGB'' \<and>
    (int (length dec) = w * h \<or> str_includes cs ''Gray'' \<or> str_includes cs ''Grey'')"
  show "paint w h cs dec =
        Some \<lparr> canvas_width = w, canvas_height = h,
               canvas_data = gray_to_rgba dec (nat (w * h)) \<rparr>"
    by (rule paint_gray) (use a in blast)+
next
  assume a: "int (length dec) \<noteq> w * h * 3 \<and> \<not> str_includes cs ''RGB'' \<and>
    int (length dec) \<noteq> w * h \<and> \<not> str_includes cs ''Gray'' \<and> \<not> str_includes cs ''Grey''"
  show "paint w h cs dec =
        (if int (length dec) = w * h * 4
         then Some \<lparr> canvas_width = w, canvas_height = h, canvas_data = dec \<rparr> else None)"
    by (rule paint_rgba) (use a in blast)+
qed

theorem channel_choice_witness:
  "paint 2 1 ''/DeviceGray'' [1, 2, 3, 4, 5, 6] =
     Some \<lparr> canvas_width = 2, canvas_height = 1, canvas_data = [1, 2, 3, 255, 4, 5, 6, 255] \<rparr> \<and>
   paint 1 1 ''/DeviceRGB'' [7] =
     Some \<lparr> canvas_width = 1, canvas_height = 1, canvas_data = [7, 0, 0, 255] \<rparr> \<and>
   paint 2 1 ''/DeviceGray'' [7, 8] =
     Some \<lparr> canvas_width = 2, canvas_height = 1, canvas_data = [7, 7, 7, 255, 8, 8, 8, 255] \<rparr> \<and>
   paint 1 1 ''/DeviceCMYK'' [1, 2, 3, 4] =
     Some \<lparr> canvas_width = 1, canvas_height = 1, canvas_data = [1, 2, 3, 4] \<rparr>"
  using channel_choice [of "[1, 2, 3, 4, 5, 6]" 2 1 "''/DeviceGray''"]
    channel_choice [of "[7]" 1 1 "''/DeviceRGB''"]
    channel_choice [of "[7, 8]" 2 1 "''/DeviceGray''"]
    channel_choice [of "[1, 2, 3, 4]" 1 1 "''/DeviceCMYK''"]
  by (simp add: byte_at_def)


text \<open>
  An indexed image over an RGB palette has one byte for each pixel and \<open>RGB\<close> in the
  name of its colour space.  It is read as RGB, three bytes to a pixel, not as
  grayscale.
\<close>

theorem rgb_hint_beats_gray_length:
  "int (length [7::8 word]) = 1 * 1 \<and> str_includes ''[ /Indexed /DeviceRGB 255 7 0 R ]'' ''RGB'' \<and>
   paint 1 1 ''[ /Indexed /DeviceRGB 255 7 0 R ]'' [7] =
     Some \<lparr> canvas_width = 1, canvas_height = 1, canvas_data = rgb_to_rgba [7] 1 \<rparr> \<and>
   paint 1 1 ''[ /Indexed /DeviceRGB 255 7 0 R ]'' [7] \<noteq>
     Some \<lparr> canvas_width = 1, canvas_height = 1, canvas_data = gray_to_rgba [7] 1 \<rparr> \<and>
   zip_entries (extract_xobject raw_png 0 (RawStream indexed_stream) initial) =
     [(''image_1_page1.png'', [7, 0, 0, 255])]"
  by (simp add: eval_defs indexed_stream_def raw_png_def)

subsection \<open>\<^verbatim>\<open>extractPDFImages\<close>: the entry of a stream\<close>

text \<open>
  C7.  An image stream with positive width and height whose key is new adds to the
  archive, after the entries it has:
  \<^item> one \<open>.jpg\<close> entry with the bytes of the stream as they are, when the name of the
    filter contains \<open>DCTDecode\<close> or \<open>/DCT\<close>;
  \<^item> otherwise, when the name contains \<open>FlateDecode\<close> or \<open>/Flat\<close>, or when the stream
    has no filter at all, one \<open>.png\<close> entry, the encoding of the canvas painted from
    the decoded bytes, or no entry (when decoding throws, the depth is not 8, the
    length fits no layout, or the encoder returns nothing);
  \<^item> otherwise one \<open>.bin\<close> entry with the bytes of the stream as they are.
\<close>

theorem entry_format_by_filter:
  assumes "ordered_upto P st"
    and "subtype xObj = Some ''/Image''" and "width xObj = Some w" and "height xObj = Some h"
    and "0 < w" and "0 < h"
    and "stream_hashKey w h (contents xObj) \<notin> extractedHashes st"
  shows "zip_entries (extract_stream toBlob pageIdx xObj st) = zip_entries st @
     (let filterStr = or_empty (filterName xObj);
          name = entry_name (imageCount st + 1) (pageIdx + 1)
      in if str_includes filterStr ''DCTDecode'' \<or> str_includes filterStr ''/DCT'' then
           [(name ''jpg'', contents xObj)]
         else if str_includes filterStr ''FlateDecode'' \<or> str_includes filterStr ''/Flat'' \<or>
                 filterStr = [] then
           (case decoded xObj of
              None \<Rightarrow> []
            | Some dec \<Rightarrow>
                if bpc_of (bitsPerComponent xObj) \<noteq> 8 then []
                else
                  (case paint w h (or_empty (colorSpace xObj)) dec of
                     None \<Rightarrow> []
                   | Some cv \<Rightarrow>
                       (case toBlob cv of
                          None \<Rightarrow> []
                        | Some blob \<Rightarrow> [(name ''png'', blob)])))
         else [(name ''bin'', contents xObj)])"
proof -
  let ?s = "st\<lparr>extractedHashes := insert (stream_hashKey w h (contents xObj)) (extractedHashes st)\<rparr>"
  have x: "extract_stream toBlob pageIdx xObj st = store_stream toBlob pageIdx xObj w h ?s"
    using assms(2-7) by (simp add: extract_stream_def Let_def)
  have o: "ordered_upto P ?s" using assms(1) by simp
  show ?thesis
    unfolding x using store_stream_entries [OF o, of toBlob pageIdx xObj w h] by simp
qed

theorem entry_format_by_filter_witness:
  "zip_entries (extract_stream raw_png 0 jpeg_stream initial) =
     [(''image_1_page1.jpg'', [255, 216, 255])] \<and>
   zip_entries (extract_stream raw_png 2 ccitt_stream initial) =
     [(''image_1_page3.bin'', [1, 2])] \<and>
   zip_entries (extract_stream raw_png 0 indexed_stream initial) =
     [(''image_1_page1.png'', [7, 0, 0, 255])] \<and>
   zip_entries (extract_stream raw_png 0 deep_stream initial) = []"
  using entry_format_by_filter [OF ordered_initial,
      where xObj = jpeg_stream and w = 2 and h = 1 and toBlob = raw_png and pageIdx = 0]
    entry_format_by_filter [OF ordered_initial,
      where xObj = ccitt_stream and w = 3 and h = 1 and toBlob = raw_png and pageIdx = 2]
    entry_format_by_filter [OF ordered_initial,
      where xObj = indexed_stream and w = 1 and h = 1 and toBlob = raw_png and pageIdx = 0]
    entry_format_by_filter [OF ordered_initial,
      where xObj = deep_stream and w = 1 and h = 1 and toBlob = raw_png and pageIdx = 0]
  by (simp add: eval_defs jpeg_stream_def ccitt_stream_def indexed_stream_def deep_stream_def
      raw_png_def)


text \<open>A stream without a filter is decoded and stored as \<open>.png\<close>, not as \<open>.bin\<close>.\<close>

theorem unfiltered_stream_is_png:
  "filterName unfiltered_stream = None \<and>
   zip_entries (extract_xobject raw_png 0 (RawStream unfiltered_stream) initial) =
     [(''image_1_page1.png'', [7, 7, 7, 255])]"
  by (simp add: eval_defs unfiltered_stream_def raw_png_def)

subsection \<open>\<^verbatim>\<open>extractPDFImages\<close>: bit depths other than 8\<close>

text \<open>
  C8.  A stream on the deflate branch whose declared \<open>BitsPerComponent\<close> is not 8 is
  to be skipped, with no entry in the archive, and the loops go on; the source says so
  at \<^verbatim>\<open>if (bpc !== 8) continue; // Only handle 8-bit images for now\<close>, and it does so
  for every declared depth but one (\<open>other_depths_skipped\<close>).  It reads the depth as
  \<^verbatim>\<open>numberValue || 8\<close>, and 0 is falsy: the stream below declares the depth 0, is
  taken to be 8 bits deep, decoded, and emitted as \<open>image_1_page1.png\<close>.
\<close>

theorem zero_depth_not_skipped:
  "bitsPerComponent zero_depth_stream = Some 0 \<and>
   zip_entries (extract_xobject raw_png 0 (RawStream zero_depth_stream) initial) =
     [(''image_1_page1.png'', [7, 7, 7, 255])]"
  by (simp add: eval_defs zero_depth_stream_def raw_png_def)

end
